theory Spec2Isabelle
  imports Main "HOL-Library.Monad_Syntax"
begin

section \<open>Window expressions: data model\<close>

text \<open>
  The enumerations of \<^verbatim>\<open>window_expression.hpp\<close>, constructor for constructor in the
  order of the header. Both are \<^verbatim>\<open>uint8_t\<close> enum classes; the datatype holds the
  declared enumerators only.
\<close>

datatype WindowBoundary =
    INVALID
  | UNBOUNDED_PRECEDING
  | UNBOUNDED_FOLLOWING
  | CURRENT_ROW_RANGE
  | CURRENT_ROW_ROWS
  | EXPR_PRECEDING_ROWS
  | EXPR_FOLLOWING_ROWS
  | EXPR_PRECEDING_RANGE
  | EXPR_FOLLOWING_RANGE

datatype WindowExcludeMode = NO_OTHER | CURRENT_ROW | GROUP | TIES

text \<open>
  \<^verbatim>\<open>throw InternalException(msg)\<close> becomes the left summand of the result type.
\<close>

datatype error = InternalException string

text \<open>
  The fields that the templated \<^verbatim>\<open>ToString(entry, schema, function_name)\<close> reads from
  its \<^verbatim>\<open>entry\<close> argument. \<^typ>\<open>'e\<close> is the template parameter \<^verbatim>\<open>BASE\<close> (the
  expression node), \<^typ>\<open>'o\<close> is \<^verbatim>\<open>ORDER_NODE\<close>. A \<^verbatim>\<open>unique_ptr<BASE>\<close> field that
  may be null is an \<^typ>\<open>'e option\<close>; the elements of the three vectors are owned,
  non-null nodes. The field \<^verbatim>\<open>distinct\<close> is \<open>distinct_flag\<close> and \<^verbatim>\<open>end\<close> is
  \<open>end_bound\<close> here (the first is a constant of the list library, the second a keyword).
\<close>

record ('e, 'o) entry =
  children :: "'e list"
  partitions :: "'e list"
  orders :: "'o list"
  filter_expr :: "'e option"
  ignore_nulls :: bool
  distinct_flag :: bool
  start :: WindowBoundary
  end_bound :: WindowBoundary
  exclude_clause :: WindowExcludeMode
  start_expr :: "'e option"
  end_expr :: "'e option"
  offset_expr :: "'e option"
  default_expr :: "'e option"
  arg_orders :: "'o list"

section \<open>Helpers that the header uses but does not define\<close>

text \<open>
  Modelled from the spec: \<^verbatim>\<open>StringUtil::Join(input, count, separator, f)\<close> is called by
  the renderer but defined elsewhere. The spec describes its use as "join \<open>arguments\<close> with
  \<open>", "\<close>" and "comma-joined rendering": the texts \<open>f\<close> gives for the first \<open>count\<close>
  elements, in order, with the separator between neighbours. The callback of the argument
  list increments a captured counter, so the callback is a state transformer here and
  \<open>Join\<close> threads the state through the calls from left to right.
\<close>

fun Join_rest :: "'a list \<Rightarrow> string \<Rightarrow> ('a \<Rightarrow> 's \<Rightarrow> string \<times> 's) \<Rightarrow> 's \<Rightarrow> string" where
  "Join_rest [] separator f s = []"
| "Join_rest (x # xs) separator f s =
     (case f x s of (t, s') \<Rightarrow> separator @ t @ Join_rest xs separator f s')"

definition Join :: "'a list \<Rightarrow> nat \<Rightarrow> string \<Rightarrow> ('a \<Rightarrow> 's \<Rightarrow> string \<times> 's) \<Rightarrow> 's \<Rightarrow> string" where
  "Join input count separator f s =
     (case take count input of
        [] \<Rightarrow> []
      | x # xs \<Rightarrow> (case f x s of (t, s') \<Rightarrow> t @ Join_rest xs separator f s'))"

text \<open>A callback without captured state, such as \<^verbatim>\<open>partition->ToString()\<close>.\<close>

definition stateless :: "('a \<Rightarrow> string) \<Rightarrow> 'a \<Rightarrow> unit \<Rightarrow> string \<times> unit" where
  "stateless f x u = (f x, u)"

text \<open>
  Modelled from the spec: \<^verbatim>\<open>entry.start_expr->ToString()\<close> goes through the
  \<^verbatim>\<open>operator->\<close> of the project's \<^verbatim>\<open>unique_ptr\<close>, which this header does not define.
  The spec's contract for the renderer says it "fails with an internal-consistency error
  ... if an \<open>Expr*\<close> variant's required offset expression is absent", so dereferencing an
  absent pointer is an \<open>InternalException\<close>. The spec does not give the message text; the
  one below is a placeholder that no theorem depends on.
\<close>

definition deref :: "'e option \<Rightarrow> error + 'e" where
  "deref p = (case p of
       None \<Rightarrow> Inl (InternalException ''Attempted to dereference unique_ptr that is NULL!'')
     | Some x \<Rightarrow> Inr x)"

section \<open>The renderer \<^verbatim>\<open>WindowExpression::ToString\<close>\<close>

text \<open>
  The callback of the argument list:
  \<^verbatim>\<open>(distincts++ ? "" : "DISTINCT ") + child->ToString()\<close>, with the captured
  \<^verbatim>\<open>int distincts\<close> as the state. The counter is an unbounded \<^typ>\<open>int\<close>: it counts
  the arguments rendered so far, and signed overflow has no defined behaviour in the
  source language.
\<close>

definition distinct_child :: "('e \<Rightarrow> string) \<Rightarrow> 'e \<Rightarrow> int \<Rightarrow> string \<times> int" where
  "distinct_child rE child distincts =
     ((if distincts \<noteq> 0 then [] else ''DISTINCT '') @ rE child, distincts + 1)"

text \<open>
  "Start with function call" up to and including the FILTER clause: everything the
  source appends before \<^verbatim>\<open>") OVER ("\<close>. Each \<^verbatim>\<open>if (c) result += t\<close> appends \<open>t\<close> or
  nothing. \<open>rE\<close> and \<open>rO\<close> are \<^verbatim>\<open>BASE::ToString\<close> and \<^verbatim>\<open>ORDER_NODE::ToString\<close>.
\<close>

definition function_call ::
  "('e \<Rightarrow> string) \<Rightarrow> ('o \<Rightarrow> string) \<Rightarrow> ('e, 'o) entry \<Rightarrow> string \<Rightarrow> string \<Rightarrow> string" where
  "function_call rE rO entry schema function_name =
     (if schema = [] then function_name else schema @ ''.'' @ function_name)
     @ ''(''
     @ (if length (children entry) \<noteq> 0
        then Join (children entry) (length (children entry)) '', '' (distinct_child rE)
               (if distinct_flag entry then 0 else 1)
        else [])
     @ (case offset_expr entry of Some x \<Rightarrow> '', '' @ rE x | None \<Rightarrow> [])
     @ (case default_expr entry of Some x \<Rightarrow> '', '' @ rE x | None \<Rightarrow> [])
     @ (if arg_orders entry \<noteq> []
        then '' ORDER BY ''
             @ Join (arg_orders entry) (length (arg_orders entry)) '', '' (stateless rO) ()
        else [])
     @ (if ignore_nulls entry then '' IGNORE NULLS'' else [])
     @ (case filter_expr entry of Some x \<Rightarrow> '') FILTER (WHERE '' @ rE x | None \<Rightarrow> [])"

text \<open>
  "Partitions" and "Orders": the text appended after \<^verbatim>\<open>") OVER ("\<close>, and the value of
  \<^verbatim>\<open>sep\<close> afterwards.
\<close>

definition over_partitions :: "('e \<Rightarrow> string) \<Rightarrow> ('e, 'o) entry \<Rightarrow> string \<times> string" where
  "over_partitions rE entry =
     (if partitions entry \<noteq> []
      then (''PARTITION BY ''
             @ Join (partitions entry) (length (partitions entry)) '', '' (stateless rE) (),
            '' '')
      else ([], []))"

definition over_orders :: "('o \<Rightarrow> string) \<Rightarrow> ('e, 'o) entry \<Rightarrow> string \<Rightarrow> string \<times> string" where
  "over_orders rO entry sep =
     (if orders entry \<noteq> []
      then (sep @ ''ORDER BY ''
             @ Join (orders entry) (length (orders entry)) '', '' (stateless rO) (),
            '' '')
      else ([], sep))"

text \<open>
  The first \<^verbatim>\<open>switch (entry.start)\<close>: from the current \<open>units\<close> to the fragment
  \<open>from\<close> and the new \<open>units\<close>, or the exception of the \<^verbatim>\<open>default\<close> label.
\<close>

definition from_bound ::
  "('e \<Rightarrow> string) \<Rightarrow> ('e, 'o) entry \<Rightarrow> string \<Rightarrow> error + (string \<times> string)" where
  "from_bound rE entry units =
     (case start entry of
        CURRENT_ROW_RANGE \<Rightarrow>
          Inr (''CURRENT ROW'',
               if start entry = CURRENT_ROW_RANGE then ''RANGE'' else ''ROWS'')
      | CURRENT_ROW_ROWS \<Rightarrow>
          Inr (''CURRENT ROW'',
               if start entry = CURRENT_ROW_RANGE then ''RANGE'' else ''ROWS'')
      | UNBOUNDED_PRECEDING \<Rightarrow>
          Inr (if end_bound entry \<noteq> CURRENT_ROW_RANGE then ''UNBOUNDED PRECEDING'' else [],
               units)
      | EXPR_PRECEDING_ROWS \<Rightarrow>
          (case deref (start_expr entry) of
             Inl e \<Rightarrow> Inl e
           | Inr x \<Rightarrow> Inr (rE x @ '' PRECEDING'',
                           if start entry = EXPR_PRECEDING_RANGE then ''RANGE'' else ''ROWS''))
      | EXPR_PRECEDING_RANGE \<Rightarrow>
          (case deref (start_expr entry) of
             Inl e \<Rightarrow> Inl e
           | Inr x \<Rightarrow> Inr (rE x @ '' PRECEDING'',
                           if start entry = EXPR_PRECEDING_RANGE then ''RANGE'' else ''ROWS''))
      | EXPR_FOLLOWING_ROWS \<Rightarrow>
          (case deref (start_expr entry) of
             Inl e \<Rightarrow> Inl e
           | Inr x \<Rightarrow> Inr (rE x @ '' FOLLOWING'',
                           if start entry = EXPR_FOLLOWING_RANGE then ''RANGE'' else ''ROWS''))
      | EXPR_FOLLOWING_RANGE \<Rightarrow>
          (case deref (start_expr entry) of
             Inl e \<Rightarrow> Inl e
           | Inr x \<Rightarrow> Inr (rE x @ '' FOLLOWING'',
                           if start entry = EXPR_FOLLOWING_RANGE then ''RANGE'' else ''ROWS''))
      | _ \<Rightarrow> Inl (InternalException ''Unrecognized FROM in WindowExpression''))"

text \<open>The second \<^verbatim>\<open>switch (entry.end)\<close>, in the same form.\<close>

definition to_bound ::
  "('e \<Rightarrow> string) \<Rightarrow> ('e, 'o) entry \<Rightarrow> string \<Rightarrow> error + (string \<times> string)" where
  "to_bound rE entry units =
     (case end_bound entry of
        CURRENT_ROW_RANGE \<Rightarrow>
          Inr (if start entry \<noteq> UNBOUNDED_PRECEDING
               then (''CURRENT ROW'', ''RANGE'')
               else ([], units))
      | CURRENT_ROW_ROWS \<Rightarrow> Inr (''CURRENT ROW'', ''ROWS'')
      | UNBOUNDED_PRECEDING \<Rightarrow> Inr (''UNBOUNDED PRECEDING'', units)
      | UNBOUNDED_FOLLOWING \<Rightarrow> Inr (''UNBOUNDED FOLLOWING'', units)
      | EXPR_PRECEDING_ROWS \<Rightarrow>
          (case deref (end_expr entry) of
             Inl e \<Rightarrow> Inl e
           | Inr x \<Rightarrow> Inr (rE x @ '' PRECEDING'',
                           if end_bound entry = EXPR_PRECEDING_RANGE then ''RANGE'' else ''ROWS''))
      | EXPR_PRECEDING_RANGE \<Rightarrow>
          (case deref (end_expr entry) of
             Inl e \<Rightarrow> Inl e
           | Inr x \<Rightarrow> Inr (rE x @ '' PRECEDING'',
                           if end_bound entry = EXPR_PRECEDING_RANGE then ''RANGE'' else ''ROWS''))
      | EXPR_FOLLOWING_ROWS \<Rightarrow>
          (case deref (end_expr entry) of
             Inl e \<Rightarrow> Inl e
           | Inr x \<Rightarrow> Inr (rE x @ '' FOLLOWING'',
                           if end_bound entry = EXPR_FOLLOWING_RANGE then ''RANGE'' else ''ROWS''))
      | EXPR_FOLLOWING_RANGE \<Rightarrow>
          (case deref (end_expr entry) of
             Inl e \<Rightarrow> Inl e
           | Inr x \<Rightarrow> Inr (rE x @ '' FOLLOWING'',
                           if end_bound entry = EXPR_FOLLOWING_RANGE then ''RANGE'' else ''ROWS''))
      | _ \<Rightarrow> Inl (InternalException ''Unrecognized TO in WindowExpression''))"

text \<open>
  "if we have an explicit EXCLUDE we always need to fill in from/to": the triple
  \<open>(from, to, units)\<close> after the block guarded by
  \<^verbatim>\<open>entry.exclude_clause != WindowExcludeMode::NO_OTHER\<close>.
\<close>

definition exclude_fill ::
  "('e, 'o) entry \<Rightarrow> string \<Rightarrow> string \<Rightarrow> string \<Rightarrow> string \<times> string \<times> string" where
  "exclude_fill entry from to units =
     (if exclude_clause entry \<noteq> NO_OTHER
      then (let from' = (if from = [] then ''UNBOUNDED PRECEDING'' else from)
            in if to = [] then (from', ''CURRENT ROW'', ''RANGE'') else (from', to, units))
      else (from, to, units))"

text \<open>
  The text that the two \<^verbatim>\<open>if\<close> statements after the fill append: \<open>sep\<close> and the
  units when a fragment is non-empty, then both bounds, or the only one, or nothing.
\<close>

definition frame_text :: "string \<Rightarrow> string \<Rightarrow> string \<Rightarrow> string \<Rightarrow> string" where
  "frame_text sep units from to =
     (if from \<noteq> [] \<or> to \<noteq> [] then sep @ units else [])
     @ (if from \<noteq> [] \<and> to \<noteq> [] then '' BETWEEN '' @ from @ '' AND '' @ to
        else if from \<noteq> [] then '' '' @ from
        else if to \<noteq> [] then '' '' @ to
        else [])"

text \<open>The EXCLUDE keyword and the final \<^verbatim>\<open>switch (entry.exclude_clause)\<close>.\<close>

definition exclude_text :: "('e, 'o) entry \<Rightarrow> string" where
  "exclude_text entry =
     (if exclude_clause entry \<noteq> NO_OTHER then '' EXCLUDE '' else [])
     @ (case exclude_clause entry of
          CURRENT_ROW \<Rightarrow> ''CURRENT ROW''
        | GROUP \<Rightarrow> ''GROUP''
        | TIES \<Rightarrow> ''TIES''
        | _ \<Rightarrow> [])"

text \<open>
  The whole function. The exceptions of the two switches leave it before anything is
  returned, so an error carries no text. \<open>units\<close> starts as \<^verbatim>\<open>"ROWS"\<close>.
\<close>

definition ToString ::
  "('e \<Rightarrow> string) \<Rightarrow> ('o \<Rightarrow> string) \<Rightarrow> ('e, 'o) entry \<Rightarrow> string \<Rightarrow> string \<Rightarrow> error + string" where
  "ToString rE rO entry schema function_name =
     (let result = function_call rE rO entry schema function_name @ '') OVER ('';
          (ptext, sep) = over_partitions rE entry;
          (otext, sep) = over_orders rO entry sep;
          result = result @ ptext @ otext
      in case from_bound rE entry ''ROWS'' of
           Inl e \<Rightarrow> Inl e
         | Inr (from, units) \<Rightarrow>
             (case to_bound rE entry units of
                Inl e \<Rightarrow> Inl e
              | Inr (to, units) \<Rightarrow>
                  (case exclude_fill entry from to units of
                     (from, to, units) \<Rightarrow>
                       Inr (result @ frame_text sep units from to
                            @ exclude_text entry @ '')''))))"

section \<open>Predicates, text fragments and sample inputs of the statements\<close>

text \<open>
  The four boundary kinds that carry an offset expression.
\<close>

definition is_expr_boundary :: "WindowBoundary \<Rightarrow> bool" where
  "is_expr_boundary b =
     (b = EXPR_PRECEDING_ROWS \<or> b = EXPR_FOLLOWING_ROWS
      \<or> b = EXPR_PRECEDING_RANGE \<or> b = EXPR_FOLLOWING_RANGE)"

text \<open>
  The boundaries a renderer call accepts: the start is neither \<open>INVALID\<close> nor
  \<open>UNBOUNDED_FOLLOWING\<close>, the end is not \<open>INVALID\<close>, and a boundary that carries an
  offset has its offset expression.
\<close>

definition valid_bounds :: "('e, 'o) entry \<Rightarrow> bool" where
  "valid_bounds entry =
     (start entry \<noteq> INVALID \<and> start entry \<noteq> UNBOUNDED_FOLLOWING
      \<and> end_bound entry \<noteq> INVALID
      \<and> (is_expr_boundary (start entry) \<longrightarrow> start_expr entry \<noteq> None)
      \<and> (is_expr_boundary (end_bound entry) \<longrightarrow> end_expr entry \<noteq> None))"

text \<open>
  The one pair of boundaries for which both switches leave their fragment empty.
\<close>

definition default_frame :: "('e, 'o) entry \<Rightarrow> bool" where
  "default_frame entry =
     (start entry = UNBOUNDED_PRECEDING \<and> end_bound entry = CURRENT_ROW_RANGE)"

text \<open>
  The text of the PARTITION BY and ORDER BY clauses together, and \<^verbatim>\<open>sep\<close> after both.
\<close>

definition over_head :: "('e \<Rightarrow> string) \<Rightarrow> ('o \<Rightarrow> string) \<Rightarrow> ('e, 'o) entry \<Rightarrow> string \<times> string" where
  "over_head rE rO entry =
     (case over_partitions rE entry of
        (ptext, sep) \<Rightarrow>
          (case over_orders rO entry sep of (otext, sep') \<Rightarrow> (ptext @ otext, sep')))"

text \<open>
  A sample call \<^verbatim>\<open>func(x)\<close> with the default frame; sub-expressions are their own
  text. The closed instances below vary single fields of it.
\<close>

definition example_entry :: "(string, string) entry" where
  "example_entry =
     \<lparr>children = [''x''], partitions = [], orders = [], filter_expr = None,
      ignore_nulls = False, distinct_flag = False,
      start = UNBOUNDED_PRECEDING, end_bound = CURRENT_ROW_RANGE,
      exclude_clause = NO_OTHER, start_expr = None, end_expr = None,
      offset_expr = None, default_expr = None, arg_orders = []\<rparr>"

text \<open>
  The units keyword named by the suffix of an end boundary.
\<close>

definition end_units :: "WindowBoundary \<Rightarrow> string" where
  "end_units b =
     (if b = EXPR_PRECEDING_RANGE \<or> b = EXPR_FOLLOWING_RANGE then ''RANGE'' else ''ROWS'')"

text \<open>
  The part of the call text between the argument list and the FILTER clause: the
  LEAD/LAG extra arguments, the argument ORDER BY and IGNORE NULLS, exactly as
  \<open>function_call\<close> appends them.
\<close>

definition call_modifiers :: "('e \<Rightarrow> string) \<Rightarrow> ('o \<Rightarrow> string) \<Rightarrow> ('e, 'o) entry \<Rightarrow> string" where
  "call_modifiers rE rO entry =
     (case offset_expr entry of Some x \<Rightarrow> '', '' @ rE x | None \<Rightarrow> [])
     @ (case default_expr entry of Some x \<Rightarrow> '', '' @ rE x | None \<Rightarrow> [])
     @ (if arg_orders entry \<noteq> []
        then '' ORDER BY ''
             @ Join (arg_orders entry) (length (arg_orders entry)) '', '' (stateless rO) ()
        else [])
     @ (if ignore_nulls entry then '' IGNORE NULLS'' else [])"

text \<open>
  The head of the call: \<^verbatim>\<open>schema.empty() ? function_name : schema + "." + function_name\<close>.
\<close>

definition call_name :: "string \<Rightarrow> string \<Rightarrow> string" where
  "call_name schema function_name =
     (if schema = [] then function_name else schema @ ''.'' @ function_name)"

text \<open>
  The argument list as \<open>function_call\<close> appends it.
\<close>

definition argument_list :: "('e \<Rightarrow> string) \<Rightarrow> ('e, 'o) entry \<Rightarrow> string" where
  "argument_list rE entry =
     (if children entry \<noteq> []
      then Join (children entry) (length (children entry)) '', '' (distinct_child rE)
             (if distinct_flag entry then 0 else 1)
      else [])"

text \<open>
  A second sample whose nodes are numbers; with every node rendered as \<^verbatim>\<open>x\<close> it has
  the same sub-expression texts as \<open>example_entry\<close>.
\<close>

definition example_numbered :: "(nat, nat) entry" where
  "example_numbered =
     \<lparr>children = [7], partitions = [], orders = [], filter_expr = None,
      ignore_nulls = False, distinct_flag = False,
      start = UNBOUNDED_PRECEDING, end_bound = CURRENT_ROW_RANGE,
      exclude_clause = NO_OTHER, start_expr = None, end_expr = None,
      offset_expr = None, default_expr = None, arg_orders = []\<rparr>"

section \<open>Equality and deep copy over a store of expression nodes\<close>

text \<open>
  The header declares \<^verbatim>\<open>Equal\<close> and \<^verbatim>\<open>Copy\<close> and owns its sub-expressions through
  \<^verbatim>\<open>unique_ptr\<close>. Ownership and sharing are statements about addresses, so the nodes live
  in a store (a list, a handle being an index) and an expression holds handles.
\<close>

text \<open>
  A handle is an index into the store of expression nodes.
\<close>

type_synonym handle = nat

text \<open>
  The class \<^verbatim>\<open>WindowExpression\<close> of the header: the fields the renderer reads, and the
  catalog, schema and function name. With \<^typ>\<open>'e\<close> a handle, an owned
  \<^verbatim>\<open>unique_ptr<ParsedExpression>\<close> is the handle of the node it owns; an order node is
  the triple of the spec (expression, sort direction, null order).
\<close>

record ('e, 'o) WindowExpression = "('e, 'o) entry" +
  catalog :: string
  schema :: string
  function_name :: string

text \<open>
  Every handle of the list names a node of the store.
\<close>

definition valid_handles :: "'n list \<Rightarrow> handle list \<Rightarrow> bool" where
  "valid_handles st hs = list_all (\<lambda>h. h < length st) hs"

text \<open>
  The handles held by an optional pointer: none or one.
\<close>

definition option_handles :: "handle option \<Rightarrow> handle list" where
  "option_handles p = (case p of None \<Rightarrow> [] | Some h \<Rightarrow> [h])"

text \<open>
  All handles an expression owns, in the order in which \<open>Copy\<close> visits them.
\<close>

definition handles :: "(handle, handle \<times> 'd \<times> 'u) WindowExpression \<Rightarrow> handle list" where
  "handles w =
     children w @ partitions w @ map fst (orders w) @ map fst (arg_orders w)
     @ option_handles (start_expr w) @ option_handles (end_expr w)
     @ option_handles (filter_expr w)
     @ option_handles (offset_expr w) @ option_handles (default_expr w)"

text \<open>
  A well-formed expression in a store: none of its handles dangles.
\<close>

definition well_formed :: "'n list \<Rightarrow> (handle, handle \<times> 'd \<times> 'u) WindowExpression \<Rightarrow> bool" where
  "well_formed st w = valid_handles st (handles w)"

text \<open>
  Modelled from the spec: \<^verbatim>\<open>clone(node)\<close> of one owned node is not in the header. The spec
  asks for "fresh deep copies of every owned expression-node": the copy \<open>cp\<close> of the
  node's value is stored at a new handle, the next free index of the store. \<open>cp\<close> is
  the node's own clone capability. A handle outside the store has no node to copy.
\<close>

definition copy_node :: "('n \<Rightarrow> 'n) \<Rightarrow> 'n list \<Rightarrow> handle \<Rightarrow> ('n list \<times> handle) option" where
  "copy_node cp st h =
     (if h < length st then Some (st @ [cp (st ! h)], length st) else None)"

text \<open>
  Modelled from the spec: the copy of a sequence of owned nodes, one after the other,
  threading the store.
\<close>

fun copy_nodes :: "('n \<Rightarrow> 'n) \<Rightarrow> 'n list \<Rightarrow> handle list \<Rightarrow> ('n list \<times> handle list) option" where
  "copy_nodes cp st [] = Some (st, [])"
| "copy_nodes cp st (h # hs) =
     do { (st, h') \<leftarrow> copy_node cp st h;
          (st, hs') \<leftarrow> copy_nodes cp st hs;
          Some (st, h' # hs') }"

text \<open>
  Modelled from the spec: the copy of an optional owned node; an absent one stays absent.
\<close>

definition copy_option ::
  "('n \<Rightarrow> 'n) \<Rightarrow> 'n list \<Rightarrow> handle option \<Rightarrow> ('n list \<times> handle option) option" where
  "copy_option cp st p =
     (case p of
        None \<Rightarrow> Some (st, None)
      | Some h \<Rightarrow> do { (st, h') \<leftarrow> copy_node cp st h; Some (st, Some h') })"

text \<open>
  Modelled from the spec: the copy of a sequence of order triples copies the expression of
  each and keeps its sort direction and null order ("copied by value").
\<close>

definition copy_orders ::
  "('n \<Rightarrow> 'n) \<Rightarrow> 'n list \<Rightarrow> (handle \<times> 'd \<times> 'u) list
     \<Rightarrow> ('n list \<times> (handle \<times> 'd \<times> 'u) list) option" where
  "copy_orders cp st os =
     do { (st, hs') \<leftarrow> copy_nodes cp st (map fst os);
          Some (st, zip hs' (map snd os)) }"

text \<open>
  Modelled from the spec: \<^verbatim>\<open>WindowExpression::Copy\<close> is declared in the header and
  defined elsewhere. Section 4.3 of the spec: it "produces a new WindowSpec owning fresh
  deep copies of every owned expression-node (arguments, partition/order/argOrders
  expressions, bound offsets, filter, offset/default args); all enumerations and primitive
  flags are copied by value". The result is the store after the copies and the new
  expression; \<open>None\<close> when a handle dangles. The handles of a
  well-formed expression all name nodes of the store before the copy, and each copy
  reads only those.
\<close>

definition Copy ::
  "('n \<Rightarrow> 'n) \<Rightarrow> 'n list \<Rightarrow> (handle, handle \<times> 'd \<times> 'u) WindowExpression
     \<Rightarrow> ('n list \<times> (handle, handle \<times> 'd \<times> 'u) WindowExpression) option" where
  "Copy cp st w =
     do { (st, ch) \<leftarrow> copy_nodes cp st (children w);
          (st, pa) \<leftarrow> copy_nodes cp st (partitions w);
          (st, od) \<leftarrow> copy_orders cp st (orders w);
          (st, ao) \<leftarrow> copy_orders cp st (arg_orders w);
          (st, se) \<leftarrow> copy_option cp st (start_expr w);
          (st, ee) \<leftarrow> copy_option cp st (end_expr w);
          (st, fe) \<leftarrow> copy_option cp st (filter_expr w);
          (st, oe) \<leftarrow> copy_option cp st (offset_expr w);
          (st, de) \<leftarrow> copy_option cp st (default_expr w);
          Some (st, w\<lparr>children := ch, partitions := pa, orders := od, arg_orders := ao,
                       start_expr := se, end_expr := ee, filter_expr := fe,
                       offset_expr := oe, default_expr := de\<rparr>) }"

text \<open>
  Modelled from the spec: "owned sub-expressions compared via their own
  structural-equality contract": two handles are equal in a store when both name a node
  and the nodes are equal under the node equality \<open>eqN\<close>.
\<close>

definition eq_at :: "('n \<Rightarrow> 'n \<Rightarrow> bool) \<Rightarrow> 'n list \<Rightarrow> handle \<Rightarrow> handle \<Rightarrow> bool" where
  "eq_at eqN st h k = (h < length st \<and> k < length st \<and> eqN (st ! h) (st ! k))"

text \<open>
  Modelled from the spec: order triples are equal when their expressions are and their
  sort direction and null order coincide.
\<close>

definition eq_order ::
  "('n \<Rightarrow> 'n \<Rightarrow> bool) \<Rightarrow> 'n list \<Rightarrow> handle \<times> 'd \<times> 'u \<Rightarrow> handle \<times> 'd \<times> 'u \<Rightarrow> bool" where
  "eq_order eqN st a b = (eq_at eqN st (fst a) (fst b) \<and> snd a = snd b)"

text \<open>
  Modelled from the spec: \<^verbatim>\<open>WindowExpression::Equal\<close> is declared in the header and
  defined elsewhere. Section 4.2 of the spec: "true iff every field listed in section 3
  compares equal, with sequences compared element-wise in order", the three names
  "byte-for-byte".
\<close>

definition Equal ::
  "('n \<Rightarrow> 'n \<Rightarrow> bool) \<Rightarrow> 'n list \<Rightarrow> (handle, handle \<times> 'd \<times> 'u) WindowExpression
     \<Rightarrow> (handle, handle \<times> 'd \<times> 'u) WindowExpression \<Rightarrow> bool" where
  "Equal eqN st a b =
     (catalog a = catalog b \<and> schema a = schema b \<and> function_name a = function_name b
      \<and> list_all2 (eq_at eqN st) (children a) (children b)
      \<and> distinct_flag a = distinct_flag b
      \<and> ignore_nulls a = ignore_nulls b
      \<and> rel_option (eq_at eqN st) (filter_expr a) (filter_expr b)
      \<and> list_all2 (eq_at eqN st) (partitions a) (partitions b)
      \<and> list_all2 (eq_order eqN st) (orders a) (orders b)
      \<and> list_all2 (eq_order eqN st) (arg_orders a) (arg_orders b)
      \<and> start a = start b \<and> end_bound a = end_bound b
      \<and> rel_option (eq_at eqN st) (start_expr a) (start_expr b)
      \<and> rel_option (eq_at eqN st) (end_expr a) (end_expr b)
      \<and> rel_option (eq_at eqN st) (offset_expr a) (offset_expr b)
      \<and> rel_option (eq_at eqN st) (default_expr a) (default_expr b)
      \<and> exclude_clause a = exclude_clause b)"

text \<open>
  A sample expression over six nodes, and its store.
\<close>

definition example_window :: "(handle, handle \<times> bool \<times> bool) WindowExpression" where
  "example_window =
     \<lparr>children = [0, 1], partitions = [2], orders = [(3, True, False)], filter_expr = Some 4,
      ignore_nulls = False, distinct_flag = True,
      start = EXPR_PRECEDING_ROWS, end_bound = CURRENT_ROW_ROWS,
      exclude_clause = NO_OTHER, start_expr = Some 5, end_expr = None,
      offset_expr = None, default_expr = None, arg_orders = [],
      catalog = [], schema = [], function_name = ''sum''\<rparr>"

text \<open>
  The store of the sample: six nodes, each its own text.
\<close>

definition example_store :: "string list" where
  "example_store = [''a'', ''b'', ''p'', ''s'', ''f'', ''1'']"

section \<open>Properties of the renderer\<close>

lemma from_bound_valid:
  assumes "valid_bounds entry"
  shows "\<exists>from units'. from_bound rE entry units = Inr (from, units')
           \<and> (from = [] \<longleftrightarrow> default_frame entry)"
  using assms
  by (cases "start entry")
     (auto simp: valid_bounds_def is_expr_boundary_def from_bound_def deref_def default_frame_def)

lemma to_bound_valid:
  assumes "valid_bounds entry"
  shows "\<exists>to units'. to_bound rE entry units = Inr (to, units')
           \<and> (to = [] \<longleftrightarrow> default_frame entry)"
  using assms
  by (cases "end_bound entry")
     (auto simp: valid_bounds_def is_expr_boundary_def to_bound_def deref_def default_frame_def)

lemma ToString_unfold:
  assumes "from_bound rE entry ''ROWS'' = Inr (from, u1)"
    and "to_bound rE entry u1 = Inr (to, u2)"
    and "exclude_fill entry from to u2 = (F, T, U)"
  shows "ToString rE rO entry sch fname =
           Inr (function_call rE rO entry sch fname @ '') OVER (''
                @ fst (over_head rE rO entry)
                @ frame_text (snd (over_head rE rO entry)) U F T
                @ exclude_text entry @ '')'')"
  using assms
  by (simp add: ToString_def over_head_def split: prod.splits)

lemma over_head_empty:
  "partitions entry = [] \<Longrightarrow> orders entry = [] \<Longrightarrow> over_head rE rO entry = ([], [])"
  by (simp add: over_head_def over_partitions_def over_orders_def)

lemma exclude_fill_none:
  "exclude_clause entry = NO_OTHER \<Longrightarrow> exclude_fill entry from to units = (from, to, units)"
  by (simp add: exclude_fill_def)

lemma exclude_text_none:
  "exclude_clause entry = NO_OTHER \<Longrightarrow> exclude_text entry = []"
  by (simp add: exclude_text_def)

lemma frame_text_both:
  "from \<noteq> [] \<Longrightarrow> to \<noteq> [] \<Longrightarrow>
   frame_text sep units from to = sep @ units @ '' BETWEEN '' @ from @ '' AND '' @ to"
  by (simp add: frame_text_def)

lemma frame_text_neither: "frame_text sep units [] [] = []"
  by (simp add: frame_text_def)

text \<open>
  Claim C1, as amended. The claim speaks of what is rendered for every entry with valid
  boundaries; the EXCLUDE fill prints the default pair in full (see the closed instance
  after the theorem), so the rendered elision holds for entries without an EXCLUDE
  clause. For an entry with valid boundaries the first switch leaves \<open>from\<close> empty
  exactly when the start is \<open>UNBOUNDED_PRECEDING\<close> and the end is \<open>CURRENT_ROW_RANGE\<close>,
  and the second switch leaves \<open>to\<close> empty exactly for the same pair. When
  \<open>exclude_clause\<close> is \<open>NO_OTHER\<close> the rendered text has no frame at all for that pair
  and the full \<open>units BETWEEN from AND to\<close> otherwise; with empty partition and order
  lists the default pair renders \<^verbatim>\<open>... OVER ()\<close>, so nothing stands between the
  parentheses.
\<close>

theorem elision_conditions:
  assumes "valid_bounds entry"
  shows "\<exists>from u1 to u2.
           from_bound rE entry ''ROWS'' = Inr (from, u1)
         \<and> to_bound rE entry u1 = Inr (to, u2)
         \<and> (from = [] \<longleftrightarrow>
              start entry = UNBOUNDED_PRECEDING \<and> end_bound entry = CURRENT_ROW_RANGE)
         \<and> (to = [] \<longleftrightarrow>
              end_bound entry = CURRENT_ROW_RANGE \<and> start entry = UNBOUNDED_PRECEDING)
         \<and> (exclude_clause entry = NO_OTHER \<longrightarrow>
              ToString rE rO entry sch fname =
                Inr (function_call rE rO entry sch fname @ '') OVER (''
                     @ fst (over_head rE rO entry)
                     @ (if start entry = UNBOUNDED_PRECEDING
                           \<and> end_bound entry = CURRENT_ROW_RANGE
                        then []
                        else snd (over_head rE rO entry) @ u2
                             @ '' BETWEEN '' @ from @ '' AND '' @ to)
                     @ '')''))
         \<and> (start entry = UNBOUNDED_PRECEDING \<and> end_bound entry = CURRENT_ROW_RANGE
            \<and> exclude_clause entry = NO_OTHER
            \<and> partitions entry = [] \<and> orders entry = [] \<longrightarrow>
              ToString rE rO entry sch fname =
                Inr (function_call rE rO entry sch fname @ '') OVER ()''))"
proof -
  obtain frm u1 where f: "from_bound rE entry ''ROWS'' = Inr (frm, u1)"
    and fe: "frm = [] \<longleftrightarrow> default_frame entry"
    using from_bound_valid [OF assms] by blast
  obtain to u2 where t: "to_bound rE entry u1 = Inr (to, u2)"
    and te: "to = [] \<longleftrightarrow> default_frame entry"
    using to_bound_valid [OF assms] by blast
  have general: "ToString rE rO entry sch fname =
      Inr (function_call rE rO entry sch fname @ '') OVER (''
           @ fst (over_head rE rO entry)
           @ (if start entry = UNBOUNDED_PRECEDING \<and> end_bound entry = CURRENT_ROW_RANGE
              then []
              else snd (over_head rE rO entry) @ u2 @ '' BETWEEN '' @ frm @ '' AND '' @ to)
           @ '')'')"
    if no: "exclude_clause entry = NO_OTHER"
  proof (cases "default_frame entry")
    case True
    with fe te have "frm = []" "to = []" by simp_all
    with True show ?thesis
      using ToString_unfold [OF f t exclude_fill_none [OF no], of rO sch fname]
      by (simp add: frame_text_neither exclude_text_none [OF no] default_frame_def)
  next
    case False
    with fe te have "frm \<noteq> []" "to \<noteq> []" by simp_all
    with False show ?thesis
      using ToString_unfold [OF f t exclude_fill_none [OF no], of rO sch fname]
      by (simp add: frame_text_both exclude_text_none [OF no] default_frame_def)
  qed
  have particular: "ToString rE rO entry sch fname =
      Inr (function_call rE rO entry sch fname @ '') OVER ()'')"
    if "start entry = UNBOUNDED_PRECEDING" "end_bound entry = CURRENT_ROW_RANGE"
       "exclude_clause entry = NO_OTHER" "partitions entry = []" "orders entry = []"
    using general [OF that(3)] that over_head_empty [of entry rE rO] by simp
  from f t fe te general particular show ?thesis
    unfolding default_frame_def by blast
qed

lemma example_entry_call:
  "function_call (\<lambda>x. x) (\<lambda>x. x) example_entry [] ''func'' = ''func(x''"
  by (simp add: function_call_def example_entry_def Join_def distinct_child_def)

theorem elision_conditions_witness:
  "valid_bounds example_entry
   \<and> ToString (\<lambda>x. x) (\<lambda>x. x) example_entry [] ''func'' = Inr ''func(x) OVER ()''"
proof -
  have v: "valid_bounds example_entry"
    by (simp add: valid_bounds_def is_expr_boundary_def example_entry_def)
  have d: "start example_entry = UNBOUNDED_PRECEDING"
    "end_bound example_entry = CURRENT_ROW_RANGE"
    "exclude_clause example_entry = NO_OTHER"
    "partitions example_entry = []" "orders example_entry = []"
    by (simp_all add: example_entry_def)
  have "ToString (\<lambda>x. x) (\<lambda>x. x) example_entry [] ''func'' =
          Inr (function_call (\<lambda>x. x) (\<lambda>x. x) example_entry [] ''func'' @ '') OVER ()'')"
    using elision_conditions [OF v, of "\<lambda>x. x" "\<lambda>x. x" "[]" "''func''"] d
    by blast
  with v show ?thesis by (simp add: example_entry_call)
qed

text \<open>
  Claim C1 as first worded fails with an EXCLUDE clause: this entry has valid boundaries
  and the default pair, both switches leave their fragment empty, and yet the fill block
  makes the renderer print both bounds.
\<close>

theorem elision_with_exclude_counterexample:
  "valid_bounds (example_entry\<lparr>exclude_clause := GROUP\<rparr>)
   \<and> start (example_entry\<lparr>exclude_clause := GROUP\<rparr>) = UNBOUNDED_PRECEDING
   \<and> end_bound (example_entry\<lparr>exclude_clause := GROUP\<rparr>) = CURRENT_ROW_RANGE
   \<and> from_bound (\<lambda>x. x) (example_entry\<lparr>exclude_clause := GROUP\<rparr>) ''ROWS''
       = Inr ([], ''ROWS'')
   \<and> to_bound (\<lambda>x. x) (example_entry\<lparr>exclude_clause := GROUP\<rparr>) ''ROWS''
       = Inr ([], ''ROWS'')
   \<and> ToString (\<lambda>x. x) (\<lambda>x. x) (example_entry\<lparr>exclude_clause := GROUP\<rparr>) [] ''func''
       = Inr ''func(x) OVER (RANGE BETWEEN UNBOUNDED PRECEDING AND CURRENT ROW EXCLUDE GROUP)''"
proof -
  let ?e = "example_entry\<lparr>exclude_clause := GROUP\<rparr>"
  have v: "valid_bounds ?e"
    by (simp add: valid_bounds_def is_expr_boundary_def example_entry_def)
  have d: "start ?e = UNBOUNDED_PRECEDING" "end_bound ?e = CURRENT_ROW_RANGE"
    by (simp_all add: example_entry_def)
  have f: "from_bound (\<lambda>x. x) ?e ''ROWS'' = Inr ([], ''ROWS'')"
    by (simp add: from_bound_def example_entry_def)
  have t: "to_bound (\<lambda>x. x) ?e ''ROWS'' = Inr ([], ''ROWS'')"
    by (simp add: to_bound_def example_entry_def)
  have x: "exclude_fill ?e [] [] ''ROWS'' = (''UNBOUNDED PRECEDING'', ''CURRENT ROW'', ''RANGE'')"
    by (simp add: exclude_fill_def)
  have c: "function_call (\<lambda>x. x) (\<lambda>x. x) ?e [] ''func'' = ''func(x''"
    by (simp add: function_call_def example_entry_def Join_def distinct_child_def)
  have o: "over_head (\<lambda>x. x) (\<lambda>x. x) ?e = ([], [])"
    by (simp add: over_head_empty example_entry_def)
  have n: "exclude_text ?e = '' EXCLUDE GROUP''"
    by (simp add: exclude_text_def)
  have "ToString (\<lambda>x. x) (\<lambda>x. x) ?e [] ''func''
          = Inr ''func(x) OVER (RANGE BETWEEN UNBOUNDED PRECEDING AND CURRENT ROW EXCLUDE GROUP)''"
    using ToString_unfold [OF f t x, of "\<lambda>x. x" "[]" "''func''"]
    by (simp add: c o n frame_text_def)
  with v d f t show ?thesis by simp
qed

lemma exclude_fill_some:
  "exclude_clause entry \<noteq> NO_OTHER \<Longrightarrow>
   exclude_fill entry frm to units =
     (if frm = [] then ''UNBOUNDED PRECEDING'' else frm,
      if to = [] then ''CURRENT ROW'' else to,
      if to = [] then ''RANGE'' else units)"
  by (simp add: exclude_fill_def)

text \<open>
  Claim C2. With an EXCLUDE clause other than \<open>NO_OTHER\<close> both bounds are spelled out: an
  empty \<open>from\<close> becomes \<^verbatim>\<open>UNBOUNDED PRECEDING\<close>, an empty \<open>to\<close> becomes
  \<^verbatim>\<open>CURRENT ROW\<close> with units \<^verbatim>\<open>RANGE\<close>, and the text always holds the full frame.
  For the default pair with empty partition and order lists and \<open>TIES\<close> the OVER clause
  is exactly \<^verbatim>\<open>RANGE BETWEEN UNBOUNDED PRECEDING AND CURRENT ROW EXCLUDE TIES\<close>.
\<close>

theorem exclude_forces_bounds:
  assumes "valid_bounds entry" and "exclude_clause entry \<noteq> NO_OTHER"
  shows "\<exists>from u1 to u2 F T U.
           from_bound rE entry ''ROWS'' = Inr (from, u1)
         \<and> to_bound rE entry u1 = Inr (to, u2)
         \<and> exclude_fill entry from to u2 = (F, T, U)
         \<and> F = (if from = [] then ''UNBOUNDED PRECEDING'' else from)
         \<and> T = (if to = [] then ''CURRENT ROW'' else to)
         \<and> U = (if to = [] then ''RANGE'' else u2)
         \<and> F \<noteq> [] \<and> T \<noteq> []
         \<and> ToString rE rO entry sch fname =
              Inr (function_call rE rO entry sch fname @ '') OVER (''
                   @ fst (over_head rE rO entry)
                   @ snd (over_head rE rO entry) @ U @ '' BETWEEN '' @ F @ '' AND '' @ T
                   @ exclude_text entry @ '')'')
         \<and> (start entry = UNBOUNDED_PRECEDING \<and> end_bound entry = CURRENT_ROW_RANGE
            \<and> partitions entry = [] \<and> orders entry = []
            \<and> exclude_clause entry = TIES \<longrightarrow>
              ToString rE rO entry sch fname =
                Inr (function_call rE rO entry sch fname
                     @ '') OVER (RANGE BETWEEN UNBOUNDED PRECEDING AND CURRENT ROW EXCLUDE TIES)''))"
proof -
  obtain frm u1 where f: "from_bound rE entry ''ROWS'' = Inr (frm, u1)"
    and fe: "frm = [] \<longleftrightarrow> default_frame entry"
    using from_bound_valid [OF assms(1)] by blast
  obtain to u2 where t: "to_bound rE entry u1 = Inr (to, u2)"
    and te: "to = [] \<longleftrightarrow> default_frame entry"
    using to_bound_valid [OF assms(1)] by blast
  define F where "F = (if frm = [] then ''UNBOUNDED PRECEDING'' else frm)"
  define T where "T = (if to = [] then ''CURRENT ROW'' else to)"
  define U where "U = (if to = [] then ''RANGE'' else u2)"
  have x: "exclude_fill entry frm to u2 = (F, T, U)"
    using exclude_fill_some [OF assms(2)] by (simp add: F_def T_def U_def)
  have ne: "F \<noteq> []" "T \<noteq> []"
    by (simp_all add: F_def T_def)
  have general: "ToString rE rO entry sch fname =
      Inr (function_call rE rO entry sch fname @ '') OVER (''
           @ fst (over_head rE rO entry)
           @ snd (over_head rE rO entry) @ U @ '' BETWEEN '' @ F @ '' AND '' @ T
           @ exclude_text entry @ '')'')"
    using ToString_unfold [OF f t x, of rO sch fname]
    by (simp add: frame_text_both [OF ne])
  have particular: "ToString rE rO entry sch fname =
      Inr (function_call rE rO entry sch fname
           @ '') OVER (RANGE BETWEEN UNBOUNDED PRECEDING AND CURRENT ROW EXCLUDE TIES)'')"
    if d: "start entry = UNBOUNDED_PRECEDING" "end_bound entry = CURRENT_ROW_RANGE"
      and po: "partitions entry = []" "orders entry = []"
      and ties: "exclude_clause entry = TIES"
  proof -
    from d fe te have "frm = []" "to = []" by (simp_all add: default_frame_def)
    then have "F = ''UNBOUNDED PRECEDING''" "T = ''CURRENT ROW''" "U = ''RANGE''"
      by (simp_all add: F_def T_def U_def)
    moreover have "exclude_text entry = '' EXCLUDE TIES''"
      using ties by (simp add: exclude_text_def)
    ultimately show ?thesis
      using general over_head_empty [OF po, of rE rO] by simp
  qed
  from f t x ne general particular show ?thesis
    unfolding F_def T_def U_def by blast
qed

theorem exclude_forces_bounds_witness:
  "valid_bounds (example_entry\<lparr>exclude_clause := TIES\<rparr>)
   \<and> exclude_clause (example_entry\<lparr>exclude_clause := TIES\<rparr>) \<noteq> NO_OTHER
   \<and> ToString (\<lambda>x. x) (\<lambda>x. x) (example_entry\<lparr>exclude_clause := TIES\<rparr>) [] ''func'' =
       Inr ''func(x) OVER (RANGE BETWEEN UNBOUNDED PRECEDING AND CURRENT ROW EXCLUDE TIES)''"
proof -
  let ?e = "example_entry\<lparr>exclude_clause := TIES\<rparr>"
  have v: "valid_bounds ?e"
    by (simp add: valid_bounds_def is_expr_boundary_def example_entry_def)
  have x: "exclude_clause ?e \<noteq> NO_OTHER" by simp
  have d: "start ?e = UNBOUNDED_PRECEDING" "end_bound ?e = CURRENT_ROW_RANGE"
    "partitions ?e = []" "orders ?e = []" "exclude_clause ?e = TIES"
    by (simp_all add: example_entry_def)
  have c: "function_call (\<lambda>x. x) (\<lambda>x. x) ?e [] ''func'' = ''func(x''"
    by (simp add: function_call_def example_entry_def Join_def distinct_child_def)
  have "ToString (\<lambda>x. x) (\<lambda>x. x) ?e [] ''func'' =
          Inr (function_call (\<lambda>x. x) (\<lambda>x. x) ?e [] ''func''
               @ '') OVER (RANGE BETWEEN UNBOUNDED PRECEDING AND CURRENT ROW EXCLUDE TIES)'')"
    using exclude_forces_bounds [OF v x, of "\<lambda>x. x" "\<lambda>x. x" "[]" "''func''"] d
    by blast
  with v x c show ?thesis by simp
qed

lemma from_bound_Inl:
  "(\<exists>e. from_bound rE entry units = Inl e) \<longleftrightarrow>
     start entry = INVALID \<or> start entry = UNBOUNDED_FOLLOWING
     \<or> (is_expr_boundary (start entry) \<and> start_expr entry = None)"
  by (cases "start entry"; cases "start_expr entry")
     (simp_all add: from_bound_def deref_def is_expr_boundary_def)

lemma to_bound_Inl:
  "(\<exists>e. to_bound rE entry units = Inl e) \<longleftrightarrow>
     end_bound entry = INVALID
     \<or> (is_expr_boundary (end_bound entry) \<and> end_expr entry = None)"
  by (cases "end_bound entry"; cases "end_expr entry")
     (simp_all add: to_bound_def deref_def is_expr_boundary_def)

lemma ToString_Inl:
  "(\<exists>e. ToString rE rO entry sch fname = Inl e) \<longleftrightarrow> \<not> valid_bounds entry"
proof (cases "from_bound rE entry ''ROWS''")
  case (Inl e)
  then have "\<not> valid_bounds entry"
    using from_bound_Inl [of rE entry "''ROWS''"] by (auto simp: valid_bounds_def)
  moreover have "ToString rE rO entry sch fname = Inl e"
    using Inl by (simp add: ToString_def split: prod.splits)
  ultimately show ?thesis by simp
next
  case (Inr p)
  obtain frm u1 where p: "p = (frm, u1)" by (cases p)
  have s: "\<not> (start entry = INVALID \<or> start entry = UNBOUNDED_FOLLOWING
     \<or> (is_expr_boundary (start entry) \<and> start_expr entry = None))"
    using Inr from_bound_Inl [of rE entry "''ROWS''"] by simp
  show ?thesis
  proof (cases "to_bound rE entry u1")
    case (Inl e)
    then have "\<not> valid_bounds entry"
      using to_bound_Inl [of rE entry u1] by (auto simp: valid_bounds_def)
    moreover have "ToString rE rO entry sch fname = Inl e"
      using Inl Inr p by (simp add: ToString_def split: prod.splits)
    ultimately show ?thesis by simp
  next
    case (Inr q)
    then have "valid_bounds entry"
      using s to_bound_Inl [of rE entry u1] by (auto simp: valid_bounds_def)
    moreover have "\<exists>t. ToString rE rO entry sch fname = Inr t"
      using Inr \<open>from_bound rE entry ''ROWS'' = Inr p\<close> p
      by (simp add: ToString_def split: prod.splits)
    ultimately show ?thesis by auto
  qed
qed

lemma error_is_internal: "\<exists>msg. (e::error) = InternalException msg"
  by (cases e) simp

text \<open>
  Claim C3. When the start or the end boundary is one of the four \<open>EXPR_*\<close> kinds and
  its offset expression is absent, the renderer ends in an \<open>InternalException\<close>; it
  returns no text. (The exception of the absent pointer is that of \<open>deref\<close>.)
\<close>

theorem missing_offset_fails:
  assumes "(is_expr_boundary (start entry) \<and> start_expr entry = None)
         \<or> (is_expr_boundary (end_bound entry) \<and> end_expr entry = None)"
  shows "\<exists>msg. ToString rE rO entry sch fname = Inl (InternalException msg)"
proof -
  from assms have "\<not> valid_bounds entry"
    by (auto simp: valid_bounds_def)
  then obtain e where "ToString rE rO entry sch fname = Inl e"
    using ToString_Inl [of rE rO entry sch fname] by blast
  then show ?thesis
    using error_is_internal [of e] by auto
qed

theorem missing_offset_fails_witness:
  "is_expr_boundary (start (example_entry\<lparr>start := EXPR_PRECEDING_ROWS\<rparr>))
   \<and> start_expr (example_entry\<lparr>start := EXPR_PRECEDING_ROWS\<rparr>) = None
   \<and> (\<exists>msg. ToString (\<lambda>x. x) (\<lambda>x. x) (example_entry\<lparr>start := EXPR_PRECEDING_ROWS\<rparr>)
               [] ''func'' = Inl (InternalException msg))"
proof -
  let ?e = "example_entry\<lparr>start := EXPR_PRECEDING_ROWS\<rparr>"
  have h: "is_expr_boundary (start ?e) \<and> start_expr ?e = None"
    by (simp add: is_expr_boundary_def example_entry_def)
  then have "(is_expr_boundary (start ?e) \<and> start_expr ?e = None)
         \<or> (is_expr_boundary (end_bound ?e) \<and> end_expr ?e = None)" ..
  from missing_offset_fails [OF this, of "\<lambda>x. x" "\<lambda>x. x" "[]" "''func''"] h
  show ?thesis by blast
qed

text \<open>
  Claim C4. A start boundary \<open>INVALID\<close> or \<open>UNBOUNDED_FOLLOWING\<close>, or an end boundary
  \<open>INVALID\<close>, ends the renderer in an \<open>InternalException\<close> without text; an entry
  whose boundaries avoid these and whose required offsets are present is rendered to a
  text. The renderer returns a text exactly for the entries with valid boundaries.
\<close>

theorem malformed_bounds_fail:
  "(start entry = INVALID \<or> start entry = UNBOUNDED_FOLLOWING \<or> end_bound entry = INVALID
      \<longrightarrow> (\<exists>msg. ToString rE rO entry sch fname = Inl (InternalException msg)))
   \<and> (valid_bounds entry \<longrightarrow> (\<exists>text. ToString rE rO entry sch fname = Inr text))
   \<and> ((\<exists>text. ToString rE rO entry sch fname = Inr text) \<longleftrightarrow> valid_bounds entry)"
proof -
  have iff: "(\<exists>text. ToString rE rO entry sch fname = Inr text)
             \<longleftrightarrow> valid_bounds entry"
    using ToString_Inl [of rE rO entry sch fname]
    by (cases "ToString rE rO entry sch fname") auto
  have "\<exists>msg. ToString rE rO entry sch fname = Inl (InternalException msg)"
    if "start entry = INVALID \<or> start entry = UNBOUNDED_FOLLOWING \<or> end_bound entry = INVALID"
  proof -
    from that have "\<not> valid_bounds entry" by (auto simp: valid_bounds_def)
    then obtain e where "ToString rE rO entry sch fname = Inl e"
      using ToString_Inl [of rE rO entry sch fname] by blast
    then show ?thesis using error_is_internal [of e] by auto
  qed
  with iff show ?thesis by blast
qed

theorem malformed_bounds_fail_witness:
  "start (example_entry\<lparr>start := INVALID\<rparr>) = INVALID
   \<and> (\<exists>msg. ToString (\<lambda>x. x) (\<lambda>x. x) (example_entry\<lparr>start := INVALID\<rparr>) [] ''func''
               = Inl (InternalException msg))
   \<and> valid_bounds example_entry
   \<and> (\<exists>text. ToString (\<lambda>x. x) (\<lambda>x. x) example_entry [] ''func'' = Inr text)"
proof -
  have i: "start (example_entry\<lparr>start := INVALID\<rparr>) = INVALID" by simp
  have v: "valid_bounds example_entry"
    by (simp add: valid_bounds_def is_expr_boundary_def example_entry_def)
  from i malformed_bounds_fail
         [of "example_entry\<lparr>start := INVALID\<rparr>" "\<lambda>x. x" "\<lambda>x. x" "[]" "''func''"]
  have "\<exists>msg. ToString (\<lambda>x. x) (\<lambda>x. x) (example_entry\<lparr>start := INVALID\<rparr>) [] ''func''
               = Inl (InternalException msg)"
    by blast
  moreover from v malformed_bounds_fail [of example_entry "\<lambda>x. x" "\<lambda>x. x" "[]" "''func''"]
  have "\<exists>text. ToString (\<lambda>x. x) (\<lambda>x. x) example_entry [] ''func'' = Inr text"
    by blast
  ultimately show ?thesis using i v by blast
qed

text \<open>
  Claim C5. For an entry with valid boundaries, after the EXCLUDE fill \<open>from\<close> is empty
  if and only if \<open>to\<close> is. The frame text is therefore either
  \<open>sep units BETWEEN from AND to\<close> or empty: the two branches that print the units
  with a single bound are never taken.
\<close>

theorem bounds_both_or_neither:
  assumes "valid_bounds entry"
  shows "\<exists>from u1 to u2 F T U.
           from_bound rE entry ''ROWS'' = Inr (from, u1)
         \<and> to_bound rE entry u1 = Inr (to, u2)
         \<and> exclude_fill entry from to u2 = (F, T, U)
         \<and> (F = [] \<longleftrightarrow> T = [])
         \<and> (\<forall>sep. frame_text sep U F T =
                    (if F = [] \<and> T = [] then []
                     else sep @ U @ '' BETWEEN '' @ F @ '' AND '' @ T))
         \<and> ToString rE rO entry sch fname =
              Inr (function_call rE rO entry sch fname @ '') OVER (''
                   @ fst (over_head rE rO entry)
                   @ (if F = [] \<and> T = [] then []
                      else snd (over_head rE rO entry) @ U
                           @ '' BETWEEN '' @ F @ '' AND '' @ T)
                   @ exclude_text entry @ '')'')"
proof -
  obtain frm u1 where f: "from_bound rE entry ''ROWS'' = Inr (frm, u1)"
    and fe: "frm = [] \<longleftrightarrow> default_frame entry"
    using from_bound_valid [OF assms] by blast
  obtain to u2 where t: "to_bound rE entry u1 = Inr (to, u2)"
    and te: "to = [] \<longleftrightarrow> default_frame entry"
    using to_bound_valid [OF assms] by blast
  obtain F T U where x: "exclude_fill entry frm to u2 = (F, T, U)"
    by (cases "exclude_fill entry frm to u2") auto
  have both: "F = [] \<longleftrightarrow> T = []"
  proof (cases "exclude_clause entry = NO_OTHER")
    case True
    with x have "F = frm" "T = to" by (simp_all add: exclude_fill_def)
    with fe te show ?thesis by simp
  next
    case False
    with x have "F \<noteq> []" "T \<noteq> []"
      by (auto simp: exclude_fill_def Let_def split: if_splits)
    then show ?thesis by simp
  qed
  have frame: "frame_text sep U F T =
      (if F = [] \<and> T = [] then [] else sep @ U @ '' BETWEEN '' @ F @ '' AND '' @ T)" for sep
    using both by (simp add: frame_text_def)
  have "ToString rE rO entry sch fname =
      Inr (function_call rE rO entry sch fname @ '') OVER (''
           @ fst (over_head rE rO entry)
           @ (if F = [] \<and> T = [] then []
              else snd (over_head rE rO entry) @ U @ '' BETWEEN '' @ F @ '' AND '' @ T)
           @ exclude_text entry @ '')'')"
    using ToString_unfold [OF f t x, of rO sch fname]
    by (simp only: frame)
  with f t x both frame show ?thesis by blast
qed

theorem bounds_both_or_neither_witness:
  "valid_bounds (example_entry\<lparr>end_bound := UNBOUNDED_FOLLOWING\<rparr>)
   \<and> ToString (\<lambda>x. x) (\<lambda>x. x) (example_entry\<lparr>end_bound := UNBOUNDED_FOLLOWING\<rparr>) [] ''func''
       = Inr ''func(x) OVER (ROWS BETWEEN UNBOUNDED PRECEDING AND UNBOUNDED FOLLOWING)''"
proof -
  let ?e = "example_entry\<lparr>end_bound := UNBOUNDED_FOLLOWING\<rparr>"
  have v: "valid_bounds ?e"
    by (simp add: valid_bounds_def is_expr_boundary_def example_entry_def)
  have f: "from_bound (\<lambda>x. x) ?e ''ROWS'' = Inr (''UNBOUNDED PRECEDING'', ''ROWS'')"
    by (simp add: from_bound_def example_entry_def)
  have t: "to_bound (\<lambda>x. x) ?e ''ROWS'' = Inr (''UNBOUNDED FOLLOWING'', ''ROWS'')"
    by (simp add: to_bound_def example_entry_def)
  have x: "exclude_fill ?e ''UNBOUNDED PRECEDING'' ''UNBOUNDED FOLLOWING'' ''ROWS'' =
             (''UNBOUNDED PRECEDING'', ''UNBOUNDED FOLLOWING'', ''ROWS'')"
    by (simp add: exclude_fill_def example_entry_def)
  have c: "function_call (\<lambda>x. x) (\<lambda>x. x) ?e [] ''func'' = ''func(x''"
    by (simp add: function_call_def example_entry_def Join_def distinct_child_def)
  have o: "over_head (\<lambda>x. x) (\<lambda>x. x) ?e = ([], [])"
    by (simp add: over_head_empty example_entry_def)
  have n: "exclude_text ?e = []"
    by (simp add: exclude_text_def example_entry_def)
  from bounds_both_or_neither [OF v, of "\<lambda>x. x" "\<lambda>x. x" "[]" "''func''"]
  obtain frm u1 to u2 F T U where
    "from_bound (\<lambda>x. x) ?e ''ROWS'' = Inr (frm, u1)"
    "to_bound (\<lambda>x. x) ?e u1 = Inr (to, u2)"
    "exclude_fill ?e frm to u2 = (F, T, U)"
    and r: "ToString (\<lambda>x. x) (\<lambda>x. x) ?e [] ''func'' =
              Inr (function_call (\<lambda>x. x) (\<lambda>x. x) ?e [] ''func'' @ '') OVER (''
                   @ fst (over_head (\<lambda>x. x) (\<lambda>x. x) ?e)
                   @ (if F = [] \<and> T = [] then []
                      else snd (over_head (\<lambda>x. x) (\<lambda>x. x) ?e) @ U
                           @ '' BETWEEN '' @ F @ '' AND '' @ T)
                   @ exclude_text ?e @ '')'')"
    by blast
  then have "F = ''UNBOUNDED PRECEDING''" "T = ''UNBOUNDED FOLLOWING''" "U = ''ROWS''"
    using f t x by simp_all
  with r c o n v show ?thesis by simp
qed

lemma to_bound_units:
  assumes "valid_bounds entry"
    and "end_bound entry = CURRENT_ROW_ROWS \<or> is_expr_boundary (end_bound entry)"
    and "to_bound rE entry units = Inr (to, u2)"
  shows "u2 = end_units (end_bound entry)"
  using assms
  by (cases "end_bound entry")
     (auto simp: valid_bounds_def is_expr_boundary_def to_bound_def deref_def end_units_def)

text \<open>
  Claim C6. When the end boundary is \<open>CURRENT_ROW_ROWS\<close> or one of the four \<open>EXPR_*\<close>
  kinds (and the boundaries are valid), both bounds are printed and the units keyword is
  the one of the end boundary's suffix, whatever units the start boundary set before:
  the second switch assigns last.
\<close>

theorem units_follow_end:
  assumes "valid_bounds entry"
    and "end_bound entry = CURRENT_ROW_ROWS \<or> is_expr_boundary (end_bound entry)"
  shows "\<exists>from u1 to u2.
           from_bound rE entry ''ROWS'' = Inr (from, u1)
         \<and> to_bound rE entry u1 = Inr (to, u2)
         \<and> from \<noteq> [] \<and> to \<noteq> []
         \<and> ToString rE rO entry sch fname =
              Inr (function_call rE rO entry sch fname @ '') OVER (''
                   @ fst (over_head rE rO entry)
                   @ snd (over_head rE rO entry)
                   @ (if end_bound entry = EXPR_PRECEDING_RANGE
                         \<or> end_bound entry = EXPR_FOLLOWING_RANGE
                      then ''RANGE'' else ''ROWS'')
                   @ '' BETWEEN '' @ from @ '' AND '' @ to
                   @ exclude_text entry @ '')'')"
proof -
  obtain frm u1 where f: "from_bound rE entry ''ROWS'' = Inr (frm, u1)"
    and fe: "frm = [] \<longleftrightarrow> default_frame entry"
    using from_bound_valid [OF assms(1)] by blast
  obtain to u2 where t: "to_bound rE entry u1 = Inr (to, u2)"
    and te: "to = [] \<longleftrightarrow> default_frame entry"
    using to_bound_valid [OF assms(1)] by blast
  have nd: "\<not> default_frame entry"
    using assms(2) by (auto simp: default_frame_def is_expr_boundary_def)
  with fe te have ne: "frm \<noteq> []" "to \<noteq> []" by simp_all
  have u: "u2 = end_units (end_bound entry)"
    using to_bound_units [OF assms t] .
  have x: "exclude_fill entry frm to u2 = (frm, to, u2)"
    using ne by (simp add: exclude_fill_def)
  have "ToString rE rO entry sch fname =
      Inr (function_call rE rO entry sch fname @ '') OVER (''
           @ fst (over_head rE rO entry)
           @ snd (over_head rE rO entry)
           @ (if end_bound entry = EXPR_PRECEDING_RANGE
                 \<or> end_bound entry = EXPR_FOLLOWING_RANGE
              then ''RANGE'' else ''ROWS'')
           @ '' BETWEEN '' @ frm @ '' AND '' @ to
           @ exclude_text entry @ '')'')"
    using ToString_unfold [OF f t x, of rO sch fname] u
    by (simp add: frame_text_both [OF ne] end_units_def)
  with f t ne show ?thesis by blast
qed

theorem units_follow_end_witness:
  "valid_bounds (example_entry\<lparr>start := EXPR_PRECEDING_RANGE, start_expr := Some ''1'',
                                end_bound := CURRENT_ROW_ROWS\<rparr>)
   \<and> ToString (\<lambda>x. x) (\<lambda>x. x)
        (example_entry\<lparr>start := EXPR_PRECEDING_RANGE, start_expr := Some ''1'',
                        end_bound := CURRENT_ROW_ROWS\<rparr>) [] ''func''
       = Inr ''func(x) OVER (ROWS BETWEEN 1 PRECEDING AND CURRENT ROW)''"
proof -
  let ?e = "example_entry\<lparr>start := EXPR_PRECEDING_RANGE, start_expr := Some ''1'',
                          end_bound := CURRENT_ROW_ROWS\<rparr>"
  have v: "valid_bounds ?e"
    by (simp add: valid_bounds_def is_expr_boundary_def example_entry_def)
  have h: "end_bound ?e = CURRENT_ROW_ROWS \<or> is_expr_boundary (end_bound ?e)"
    by simp
  have f: "from_bound (\<lambda>x. x) ?e ''ROWS'' = Inr (''1 PRECEDING'', ''RANGE'')"
    by (simp add: from_bound_def deref_def example_entry_def)
  have t: "to_bound (\<lambda>x. x) ?e ''RANGE'' = Inr (''CURRENT ROW'', ''ROWS'')"
    by (simp add: to_bound_def example_entry_def)
  have c: "function_call (\<lambda>x. x) (\<lambda>x. x) ?e [] ''func'' = ''func(x''"
    by (simp add: function_call_def example_entry_def Join_def distinct_child_def)
  have o: "over_head (\<lambda>x. x) (\<lambda>x. x) ?e = ([], [])"
    by (simp add: over_head_empty example_entry_def)
  have n: "exclude_text ?e = []"
    by (simp add: exclude_text_def example_entry_def)
  from units_follow_end [OF v h, of "\<lambda>x. x" "\<lambda>x. x" "[]" "''func''"]
  obtain frm u1 to u2 where
    "from_bound (\<lambda>x. x) ?e ''ROWS'' = Inr (frm, u1)"
    "to_bound (\<lambda>x. x) ?e u1 = Inr (to, u2)"
    and r: "ToString (\<lambda>x. x) (\<lambda>x. x) ?e [] ''func'' =
              Inr (function_call (\<lambda>x. x) (\<lambda>x. x) ?e [] ''func'' @ '') OVER (''
                   @ fst (over_head (\<lambda>x. x) (\<lambda>x. x) ?e)
                   @ snd (over_head (\<lambda>x. x) (\<lambda>x. x) ?e)
                   @ (if end_bound ?e = EXPR_PRECEDING_RANGE
                         \<or> end_bound ?e = EXPR_FOLLOWING_RANGE
                      then ''RANGE'' else ''ROWS'')
                   @ '' BETWEEN '' @ frm @ '' AND '' @ to
                   @ exclude_text ?e @ '')'')"
    by blast
  then have "frm = ''1 PRECEDING''" "to = ''CURRENT ROW''"
    using f t by simp_all
  with r c o n v show ?thesis by simp
qed

lemma Join_rest_counted:
  "0 < d \<Longrightarrow>
   Join_rest xs separator (distinct_child rE) d = concat (map (\<lambda>x. separator @ rE x) xs)"
proof (induction xs arbitrary: d)
  case Nil
  then show ?case by simp
next
  case (Cons x xs)
  from Cons.prems have "0 < d + 1" by simp
  from Cons.IH [OF this] Cons.prems show ?case
    by (simp add: distinct_child_def)
qed

lemma Join_distinct:
  "Join (c # cs) (length (c # cs)) separator (distinct_child rE) 0 =
     ''DISTINCT '' @ rE c @ concat (map (\<lambda>x. separator @ rE x) cs)"
  using Join_rest_counted [of 1 cs separator rE]
  by (simp add: Join_def distinct_child_def)

lemma function_call_split:
  "function_call rE rO entry sch fname =
     call_name sch fname @ ''(''
     @ (if children entry \<noteq> []
        then Join (children entry) (length (children entry)) '', '' (distinct_child rE)
               (if distinct_flag entry then 0 else 1)
        else [])
     @ call_modifiers rE rO entry
     @ (case filter_expr entry of Some x \<Rightarrow> '') FILTER (WHERE '' @ rE x | None \<Rightarrow> [])"
  by (simp add: function_call_def call_modifiers_def call_name_def)

lemma from_bound_filter:
  "from_bound rE (entry\<lparr>filter_expr := fe\<rparr>) units = from_bound rE entry units"
  by (cases "start entry") (simp_all add: from_bound_def)

lemma to_bound_filter:
  "to_bound rE (entry\<lparr>filter_expr := fe\<rparr>) units = to_bound rE entry units"
  by (cases "end_bound entry") (simp_all add: to_bound_def)

lemma exclude_fill_filter:
  "exclude_fill (entry\<lparr>filter_expr := fe\<rparr>) frm to units = exclude_fill entry frm to units"
  by (simp add: exclude_fill_def)

lemma ToString_valid:
  assumes "valid_bounds entry"
  shows "\<exists>rest. \<forall>sch fname (fe :: 'e option).
           ToString rE rO (entry\<lparr>filter_expr := fe\<rparr>) sch fname =
             Inr (function_call rE rO (entry\<lparr>filter_expr := fe\<rparr>) sch fname
                  @ '') OVER ('' @ rest)"
proof -
  obtain frm u1 where f: "from_bound rE entry ''ROWS'' = Inr (frm, u1)"
    using from_bound_valid [OF assms] by blast
  obtain to u2 where t: "to_bound rE entry u1 = Inr (to, u2)"
    using to_bound_valid [OF assms] by blast
  obtain F T U where x: "exclude_fill entry frm to u2 = (F, T, U)"
    by (cases "exclude_fill entry frm to u2") auto
  let ?rest = "fst (over_head rE rO entry)
                @ frame_text (snd (over_head rE rO entry)) U F T
                @ exclude_text entry @ '')''"
  have "ToString rE rO (entry\<lparr>filter_expr := fe\<rparr>) sch fname =
          Inr (function_call rE rO (entry\<lparr>filter_expr := fe\<rparr>) sch fname
               @ '') OVER ('' @ ?rest)" for sch fname fe
  proof -
    let ?e = "entry\<lparr>filter_expr := fe\<rparr>"
    have "from_bound rE ?e ''ROWS'' = Inr (frm, u1)"
      using f by (simp add: from_bound_filter)
    moreover have "to_bound rE ?e u1 = Inr (to, u2)"
      using t by (simp add: to_bound_filter)
    moreover have "exclude_fill ?e frm to u2 = (F, T, U)"
      using x by (simp add: exclude_fill_filter)
    moreover have "over_head rE rO ?e = over_head rE rO entry"
      by (simp add: over_head_def over_partitions_def over_orders_def)
    moreover have "exclude_text ?e = exclude_text entry"
      by (simp add: exclude_text_def)
    ultimately show ?thesis
      using ToString_unfold [of rE ?e frm u1 to u2 F T U rO sch fname]
      by simp
  qed
  then show ?thesis by blast
qed

text \<open>
  Claim C7. With \<^verbatim>\<open>distinct\<close> set and a non-empty argument list, the text of the call is
  the call name, \<^verbatim>\<open>(\<close>, then \<^verbatim>\<open>DISTINCT \<close> and the first argument, then every later
  argument after \<^verbatim>\<open>, \<close> and without the prefix, however many there are. With two
  arguments and nothing else set the rendered text begins \<^verbatim>\<open>func(DISTINCT a, b) OVER (\<close>.
\<close>

theorem distinct_first_only:
  assumes "distinct_flag entry" and "children entry = c # cs"
  shows "function_call rE rO entry sch fname =
           call_name sch fname @ ''('' @ ''DISTINCT '' @ rE c
           @ concat (map (\<lambda>x. '', '' @ rE x) cs)
           @ call_modifiers rE rO entry
           @ (case filter_expr entry of
                Some x \<Rightarrow> '') FILTER (WHERE '' @ rE x | None \<Rightarrow> [])
       \<and> (valid_bounds entry \<longrightarrow>
            (\<exists>rest. ToString rE rO entry sch fname =
               Inr (call_name sch fname @ ''('' @ ''DISTINCT '' @ rE c
                    @ concat (map (\<lambda>x. '', '' @ rE x) cs)
                    @ call_modifiers rE rO entry
                    @ (case filter_expr entry of
                         Some x \<Rightarrow> '') FILTER (WHERE '' @ rE x | None \<Rightarrow> [])
                    @ '') OVER ('' @ rest)))
       \<and> (valid_bounds entry \<and> cs = [b] \<and> sch = []
            \<and> offset_expr entry = None \<and> default_expr entry = None
            \<and> arg_orders entry = [] \<and> \<not> ignore_nulls entry \<and> filter_expr entry = None
          \<longrightarrow> (\<exists>rest. ToString rE rO entry sch fname =
                 Inr (fname @ ''(DISTINCT '' @ rE c @ '', '' @ rE b
                      @ '') OVER ('' @ rest)))"
proof -
  have call: "function_call rE rO entry sch fname =
           call_name sch fname @ ''('' @ ''DISTINCT '' @ rE c
           @ concat (map (\<lambda>x. '', '' @ rE x) cs)
           @ call_modifiers rE rO entry
           @ (case filter_expr entry of
                Some x \<Rightarrow> '') FILTER (WHERE '' @ rE x | None \<Rightarrow> [])"
    using assms Join_distinct [of c cs "'', ''" rE]
    by (simp add: function_call_split)
  have rendered: "\<exists>rest. ToString rE rO entry sch fname =
               Inr (call_name sch fname @ ''('' @ ''DISTINCT '' @ rE c
                    @ concat (map (\<lambda>x. '', '' @ rE x) cs)
                    @ call_modifiers rE rO entry
                    @ (case filter_expr entry of
                         Some x \<Rightarrow> '') FILTER (WHERE '' @ rE x | None \<Rightarrow> [])
                    @ '') OVER ('' @ rest)"
    if "valid_bounds entry"
  proof -
    from ToString_valid [OF that, of rE rO] obtain rest where
      "ToString rE rO (entry\<lparr>filter_expr := filter_expr entry\<rparr>) sch fname =
         Inr (function_call rE rO (entry\<lparr>filter_expr := filter_expr entry\<rparr>)
                sch fname @ '') OVER ('' @ rest)"
      by blast
    then have "ToString rE rO entry sch fname =
         Inr (function_call rE rO entry sch fname @ '') OVER ('' @ rest)"
      by simp
    then show ?thesis
      by (simp only: call append_assoc) blast
  qed
  have two: "\<exists>rest. ToString rE rO entry sch fname =
                 Inr (fname @ ''(DISTINCT '' @ rE c @ '', '' @ rE b
                      @ '') OVER ('' @ rest)"
    if "valid_bounds entry" "cs = [b]" "sch = []"
       "offset_expr entry = None" "default_expr entry = None"
       "arg_orders entry = []" "\<not> ignore_nulls entry" "filter_expr entry = None"
  proof -
    from rendered [OF that(1)] that show ?thesis
      by (simp add: call_modifiers_def call_name_def)
  qed
  show ?thesis
  proof (intro conjI impI, goal_cases)
    case 1
    show ?case by (rule call)
  next
    case 2
    then show ?case by (rule rendered)
  next
    case 3
    then show ?case by (elim conjE) (rule two, assumption+)
  qed
qed

theorem distinct_first_only_witness:
  "distinct_flag (example_entry\<lparr>children := [''a'', ''b''], distinct_flag := True\<rparr>)
   \<and> children (example_entry\<lparr>children := [''a'', ''b''], distinct_flag := True\<rparr>)
       = [''a'', ''b'']
   \<and> valid_bounds (example_entry\<lparr>children := [''a'', ''b''], distinct_flag := True\<rparr>)
   \<and> (\<exists>rest. ToString (\<lambda>x. x) (\<lambda>x. x)
                (example_entry\<lparr>children := [''a'', ''b''], distinct_flag := True\<rparr>)
                [] ''func''
              = Inr (''func(DISTINCT a, b) OVER ('' @ rest))"
proof -
  let ?e = "example_entry\<lparr>children := [''a'', ''b''], distinct_flag := True\<rparr>"
  have d: "distinct_flag ?e" by simp
  have c: "children ?e = ''a'' # [''b'']" by simp
  have v: "valid_bounds ?e"
    by (simp add: valid_bounds_def is_expr_boundary_def example_entry_def)
  have m: "offset_expr ?e = None" "default_expr ?e = None" "arg_orders ?e = []"
    "\<not> ignore_nulls ?e" "filter_expr ?e = None"
    by (simp_all add: example_entry_def)
  have "\<exists>rest. ToString (\<lambda>x. x) (\<lambda>x. x) ?e [] ''func''
          = Inr (''func'' @ ''(DISTINCT '' @ ''a'' @ '', '' @ ''b'' @ '') OVER ('' @ rest)"
    using distinct_first_only [OF d c, of "\<lambda>x. x" "\<lambda>x. x" "[]" "''func''" "''b''"] v m
    by blast
  with d v show ?thesis by simp
qed

text \<open>
  Claim C8. With a filter expression the parenthesis of the call is closed by the text
  \<^verbatim>\<open>) FILTER (WHERE \<close>, after the arguments and modifiers and before the filter, and
  \<^verbatim>\<open>) OVER (\<close> then closes the FILTER clause; without a filter the parenthesis of the call
  is the one of \<^verbatim>\<open>) OVER (\<close>. The OVER clause \<open>rest\<close> is the same in both cases. One
  argument \<open>x\<close> and filter \<open>p\<close> render \<^verbatim>\<open>func(x) FILTER (WHERE p) OVER (...)\<close>.
\<close>

theorem filter_closes_call:
  assumes "valid_bounds entry"
  shows "\<exists>rest.
           (\<forall>p. filter_expr entry = Some p \<longrightarrow>
              ToString rE rO entry sch fname =
                Inr (call_name sch fname @ ''('' @ argument_list rE entry
                     @ call_modifiers rE rO entry
                     @ '') FILTER (WHERE '' @ rE p @ '') OVER ('' @ rest))
         \<and> (filter_expr entry = None \<longrightarrow>
              ToString rE rO entry sch fname =
                Inr (call_name sch fname @ ''('' @ argument_list rE entry
                     @ call_modifiers rE rO entry
                     @ '') OVER ('' @ rest))
         \<and> (\<forall>x p. children entry = [x] \<and> \<not> distinct_flag entry \<and> sch = []
                  \<and> offset_expr entry = None \<and> default_expr entry = None
                  \<and> arg_orders entry = [] \<and> \<not> ignore_nulls entry
                  \<and> filter_expr entry = Some p \<longrightarrow>
              ToString rE rO entry sch fname =
                Inr (fname @ ''('' @ rE x @ '') FILTER (WHERE '' @ rE p
                     @ '') OVER ('' @ rest))"
proof -
  from ToString_valid [OF assms, of rE rO] obtain rest where
    "ToString rE rO (entry\<lparr>filter_expr := filter_expr entry\<rparr>) sch fname =
       Inr (function_call rE rO (entry\<lparr>filter_expr := filter_expr entry\<rparr>)
              sch fname @ '') OVER ('' @ rest)"
    by blast
  then have r: "ToString rE rO entry sch fname =
       Inr (call_name sch fname @ ''('' @ argument_list rE entry
            @ call_modifiers rE rO entry
            @ (case filter_expr entry of
                 Some x \<Rightarrow> '') FILTER (WHERE '' @ rE x | None \<Rightarrow> [])
            @ '') OVER ('' @ rest)"
    by (simp add: function_call_split argument_list_def)
  have with_filter: "ToString rE rO entry sch fname =
                Inr (call_name sch fname @ ''('' @ argument_list rE entry
                     @ call_modifiers rE rO entry
                     @ '') FILTER (WHERE '' @ rE p @ '') OVER ('' @ rest)"
    if "filter_expr entry = Some p" for p
    using r that by simp
  have no_filter: "ToString rE rO entry sch fname =
                Inr (call_name sch fname @ ''('' @ argument_list rE entry
                     @ call_modifiers rE rO entry
                     @ '') OVER ('' @ rest)"
    if "filter_expr entry = None"
    using r that by simp
  have one: "ToString rE rO entry sch fname =
                Inr (fname @ ''('' @ rE x @ '') FILTER (WHERE '' @ rE p
                     @ '') OVER ('' @ rest)"
    if "children entry = [x]" "\<not> distinct_flag entry" "sch = []"
       "offset_expr entry = None" "default_expr entry = None"
       "arg_orders entry = []" "\<not> ignore_nulls entry" "filter_expr entry = Some p" for x p
    using with_filter [OF that(8)] that
    by (simp add: call_name_def call_modifiers_def argument_list_def Join_def distinct_child_def)
  show ?thesis
  proof (intro exI [of _ rest] conjI allI impI, goal_cases)
    case (1 p)
    then show ?case by (rule with_filter)
  next
    case 2
    then show ?case by (rule no_filter)
  next
    case (3 x p)
    then show ?case by (elim conjE) (rule one, assumption+)
  qed
qed

theorem filter_closes_call_witness:
  "valid_bounds (example_entry\<lparr>filter_expr := Some ''p''\<rparr>)
   \<and> (\<exists>rest. ToString (\<lambda>x. x) (\<lambda>x. x) (example_entry\<lparr>filter_expr := Some ''p''\<rparr>)
                [] ''func''
              = Inr (''func(x) FILTER (WHERE p) OVER ('' @ rest))"
proof -
  let ?e = "example_entry\<lparr>filter_expr := Some ''p''\<rparr>"
  have v: "valid_bounds ?e"
    by (simp add: valid_bounds_def is_expr_boundary_def example_entry_def)
  have m: "children ?e = [''x''] \<and> \<not> distinct_flag ?e \<and> [] = ([]::string)
      \<and> offset_expr ?e = None \<and> default_expr ?e = None
      \<and> arg_orders ?e = [] \<and> \<not> ignore_nulls ?e \<and> filter_expr ?e = Some ''p''"
    by (simp add: example_entry_def)
  from filter_closes_call [OF v, of "\<lambda>x. x" "\<lambda>x. x" "[]" "''func''"] obtain rest where
    "\<forall>x p. children ?e = [x] \<and> \<not> distinct_flag ?e \<and> [] = ([]::string)
                  \<and> offset_expr ?e = None \<and> default_expr ?e = None
                  \<and> arg_orders ?e = [] \<and> \<not> ignore_nulls ?e
                  \<and> filter_expr ?e = Some p \<longrightarrow>
              ToString (\<lambda>x. x) (\<lambda>x. x) ?e [] ''func'' =
                Inr (''func'' @ ''('' @ x @ '') FILTER (WHERE '' @ p @ '') OVER ('' @ rest)"
    by blast
  with m have "ToString (\<lambda>x. x) (\<lambda>x. x) ?e [] ''func'' =
      Inr (''func'' @ ''('' @ ''x'' @ '') FILTER (WHERE '' @ ''p'' @ '') OVER ('' @ rest)"
    by blast
  then have "ToString (\<lambda>x. x) (\<lambda>x. x) ?e [] ''func'' =
      Inr (''func(x) FILTER (WHERE p) OVER ('' @ rest)"
    by simp
  with v show ?thesis by blast
qed

lemma Join_rest_stateless:
  "Join_rest xs separator (stateless f) u = concat (map (\<lambda>t. separator @ t) (map f xs))"
  by (induction xs) (simp_all add: stateless_def)

lemma Join_stateless:
  "Join xs (length xs) separator (stateless f) u =
     (case map f xs of [] \<Rightarrow> [] | t # ts \<Rightarrow> t @ concat (map (\<lambda>t. separator @ t) ts))"
  by (cases xs) (simp_all add: Join_def Join_rest_stateless, simp add: stateless_def)

lemma Join_stateless_cong:
  assumes "map f xs = map g ys"
  shows "Join xs (length xs) separator (stateless f) u =
         Join ys (length ys) separator (stateless g) u"
  by (simp add: Join_stateless assms)

lemma Join_rest_distinct_cong:
  "map f xs = map g ys \<Longrightarrow>
   Join_rest xs separator (distinct_child f) d = Join_rest ys separator (distinct_child g) d"
proof (induction xs arbitrary: ys d)
  case Nil
  then show ?case by simp
next
  case (Cons x xs)
  then obtain y ys' where ys: "ys = y # ys'" and h: "f x = g y" and t: "map f xs = map g ys'"
    by (cases ys) auto
  from Cons.IH [OF t] show ?case
    by (simp add: ys h distinct_child_def)
qed

lemma Join_distinct_cong:
  assumes "map f xs = map g ys"
  shows "Join xs (length xs) separator (distinct_child f) d =
         Join ys (length ys) separator (distinct_child g) d"
proof (cases xs)
  case Nil
  with assms show ?thesis by (simp add: Join_def)
next
  case (Cons x xs')
  with assms obtain y ys' where ys: "ys = y # ys'" and h: "f x = g y"
    and t: "map f xs' = map g ys'"
    by (cases ys) auto
  from Join_rest_distinct_cong [OF t] show ?thesis
    by (simp add: Join_def Cons ys h distinct_child_def)
qed

text \<open>
  Claim C9. The result of the renderer is determined by the flags and boundaries of the
  entry and by the texts of its sub-expressions: two calls whose entries agree in these
  return the same text or the same error. In particular two calls on the same entry with
  the same sub-expression renderers agree; the counter of the argument list is local to
  a call and starts afresh.
\<close>

theorem render_deterministic:
  assumes "map rE (children a) = map rE' (children b)"
    and "map rE (partitions a) = map rE' (partitions b)"
    and "map rO (orders a) = map rO' (orders b)"
    and "map rO (arg_orders a) = map rO' (arg_orders b)"
    and "map_option rE (filter_expr a) = map_option rE' (filter_expr b)"
    and "map_option rE (start_expr a) = map_option rE' (start_expr b)"
    and "map_option rE (end_expr a) = map_option rE' (end_expr b)"
    and "map_option rE (offset_expr a) = map_option rE' (offset_expr b)"
    and "map_option rE (default_expr a) = map_option rE' (default_expr b)"
    and "ignore_nulls a = ignore_nulls b" and "distinct_flag a = distinct_flag b"
    and "start a = start b" and "end_bound a = end_bound b"
    and "exclude_clause a = exclude_clause b"
  shows "ToString rE rO a sch fname = ToString rE' rO' b sch fname"
proof -
  have ch: "children a = [] \<longleftrightarrow> children b = []"
    using assms(1) by (metis map_is_Nil_conv)
  have pa: "partitions a = [] \<longleftrightarrow> partitions b = []"
    using assms(2) by (metis map_is_Nil_conv)
  have od: "orders a = [] \<longleftrightarrow> orders b = []"
    using assms(3) by (metis map_is_Nil_conv)
  have ao: "arg_orders a = [] \<longleftrightarrow> arg_orders b = []"
    using assms(4) by (metis map_is_Nil_conv)
  have opt: "(case x of Some v \<Rightarrow> pre @ rE v | None \<Rightarrow> []) =
             (case y of Some v \<Rightarrow> pre @ rE' v | None \<Rightarrow> [])"
    if "map_option rE x = map_option rE' y" for x y and pre :: string
    using that by (cases x; cases y) simp_all
  have call: "function_call rE rO a sch fname =
              function_call rE' rO' b sch fname"
    unfolding function_call_def
    using ch ao assms(10,11)
      Join_distinct_cong [OF assms(1)] Join_stateless_cong [OF assms(4)]
      opt [OF assms(5)] opt [OF assms(8)] opt [OF assms(9)]
    by simp
  have parts: "over_partitions rE a = over_partitions rE' b"
    unfolding over_partitions_def
    using pa Join_stateless_cong [OF assms(2)] by simp
  have ords: "over_orders rO a sep = over_orders rO' b sep" for sep
    unfolding over_orders_def
    using od Join_stateless_cong [OF assms(3)] by simp
  have bnd: "(case deref x of Inl e \<Rightarrow> Inl e | Inr v \<Rightarrow> Inr (rE v @ suffix, units)) =
             (case deref y of Inl e \<Rightarrow> Inl e | Inr v \<Rightarrow> Inr (rE' v @ suffix, units))"
    if "map_option rE x = map_option rE' y" for x y and suffix units :: string
    using that by (cases x; cases y) (simp_all add: deref_def)
  have frm: "from_bound rE a units = from_bound rE' b units" for units
    using assms(12,13) bnd [OF assms(6)]
    by (cases "start b") (simp_all add: from_bound_def)
  have tob: "to_bound rE a units = to_bound rE' b units" for units
    using assms(12,13) bnd [OF assms(7)]
    by (cases "end_bound b") (simp_all add: to_bound_def)
  have fill: "exclude_fill a f t u = exclude_fill b f t u" for f t u
    using assms(14) by (simp add: exclude_fill_def)
  have excl: "exclude_text a = exclude_text b"
    using assms(14) by (simp add: exclude_text_def)
  show ?thesis
    unfolding ToString_def
    by (simp only: call parts ords frm tob fill excl)
qed

theorem render_deterministic_witness:
  "map (\<lambda>x. x) (children example_entry) = map (\<lambda>n. ''x'') (children example_numbered)
   \<and> start example_entry = start example_numbered
   \<and> end_bound example_entry = end_bound example_numbered
   \<and> ToString (\<lambda>x. x) (\<lambda>x. x) example_entry [] ''func''
       = ToString (\<lambda>n. ''x'') (\<lambda>n. ''y'') example_numbered [] ''func''"
proof -
  have h: "map (\<lambda>x. x) (children example_entry) = map (\<lambda>n. ''x'') (children example_numbered)"
    "start example_entry = start example_numbered"
    "end_bound example_entry = end_bound example_numbered"
    by (simp_all add: example_entry_def example_numbered_def)
  have "ToString (\<lambda>x. x) (\<lambda>x. x) example_entry [] ''func''
          = ToString (\<lambda>n. ''x'') (\<lambda>n. ''y'') example_numbered [] ''func''"
    by (rule render_deterministic) (simp_all add: example_entry_def example_numbered_def)
  with h show ?thesis by simp
qed

section \<open>Properties of equality and copy\<close>

lemma valid_handles_Cons:
  "valid_handles st (h # hs) \<longleftrightarrow> h < length st \<and> valid_handles st hs"
  by (simp add: valid_handles_def)

lemma valid_handles_append:
  "valid_handles st (hs @ ks) \<longleftrightarrow> valid_handles st hs \<and> valid_handles st ks"
  by (simp add: valid_handles_def)

lemma valid_handles_nth:
  "valid_handles st hs \<Longrightarrow> i < length hs \<Longrightarrow> hs ! i < length st"
  by (simp add: valid_handles_def list_all_length)

lemma copy_nodes_ext:
  assumes "valid_handles st hs"
  shows "copy_nodes cp (st @ ns) hs =
           Some (st @ ns @ map (\<lambda>h. cp (st ! h)) hs,
                 [length st + length ns ..< length st + length ns + length hs])"
  using assms
proof (induction hs arbitrary: ns)
  case Nil
  then show ?case by simp
next
  case (Cons h hs)
  then have h: "h < length st" and v: "valid_handles st hs"
    by (simp_all add: valid_handles_Cons)
  have n: "copy_node cp (st @ ns) h = Some (st @ (ns @ [cp (st ! h)]), length st + length ns)"
    using h by (simp add: copy_node_def nth_append)
  have r: "[length st + length ns ..< length st + length ns + length (h # hs)]
           = (length st + length ns)
             # [length st + length (ns @ [cp (st ! h)])
                ..< length st + length (ns @ [cp (st ! h)]) + length hs]"
    by (subst upt_conv_Cons) simp_all
  show ?case
    unfolding r
    using Cons.IH [OF v, of "ns @ [cp (st ! h)]"] n
    by (simp del: upt_Suc)
qed

lemma copy_option_ext:
  assumes "valid_handles st (option_handles p)"
  shows "copy_option cp (st @ ns) p =
           Some (st @ ns @ map (\<lambda>h. cp (st ! h)) (option_handles p),
                 map_option (\<lambda>_. length st + length ns) p)"
  using assms
  by (cases p)
     (simp_all add: copy_option_def copy_node_def option_handles_def valid_handles_def nth_append)

lemma copy_orders_ext:
  assumes "valid_handles st (map fst os)"
  shows "copy_orders cp (st @ ns) os =
           Some (st @ ns @ map (\<lambda>h. cp (st ! h)) (map fst os),
                 zip [length st + length ns ..< length st + length ns + length os]
                     (map snd os))"
  using copy_nodes_ext [OF assms, of cp ns]
  by (simp add: copy_orders_def)

lemma eq_at_copied:
  assumes "valid_handles st hs" and "\<forall>n. eqN n (cp n)"
  shows "list_all2 (eq_at eqN (st @ ns @ map (\<lambda>h. cp (st ! h)) hs @ post)) hs
           [length st + length ns ..< length st + length ns + length hs]"
proof -
  have "eq_at eqN (st @ ns @ map (\<lambda>h. cp (st ! h)) hs @ post) (hs ! i)
          (length st + length ns + i)"
    if i: "i < length hs" for i
  proof -
    have h: "hs ! i < length st"
      using valid_handles_nth [OF assms(1) i] .
    have "(st @ ns @ map (\<lambda>h. cp (st ! h)) hs @ post) ! (length st + length ns + i)
            = cp (st ! (hs ! i))"
      using i by (simp add: nth_append)
    moreover have "(st @ ns @ map (\<lambda>h. cp (st ! h)) hs @ post) ! (hs ! i) = st ! (hs ! i)"
      using h by (simp add: nth_append)
    ultimately show ?thesis
      using h i assms(2) by (simp add: eq_at_def)
  qed
  then show ?thesis
    by (simp add: list_all2_conv_all_nth)
qed

lemma eq_order_copied:
  assumes "valid_handles st (map fst os)" and "\<forall>n. eqN n (cp n)"
  shows "list_all2 (eq_order eqN (st @ ns @ map (\<lambda>h. cp (st ! h)) (map fst os) @ post)) os
           (zip [length st + length ns ..< length st + length ns + length os] (map snd os))"
proof -
  from eq_at_copied [of st "map fst os" eqN cp ns post] assms
  have "\<forall>i < length os.
          eq_at eqN (st @ ns @ map (\<lambda>h. cp (st ! h)) (map fst os) @ post) (fst (os ! i))
            (length st + length ns + i)"
    by (simp add: list_all2_conv_all_nth)
  then show ?thesis
    by (simp add: list_all2_conv_all_nth eq_order_def)
qed

lemma eq_option_copied:
  assumes "valid_handles st (option_handles p)" and "\<forall>n. eqN n (cp n)"
  shows "rel_option (eq_at eqN (st @ ns @ map (\<lambda>h. cp (st ! h)) (option_handles p) @ post)) p
           (map_option (\<lambda>_. length st + length ns) p)"
  using assms
  by (cases p) (simp_all add: option_handles_def valid_handles_def eq_at_def nth_append)

lemma copy_nodes_step:
  assumes "valid_handles st hs"
    and "ns' = ns @ map (\<lambda>h. cp (st ! h)) hs"
  shows "copy_nodes cp (st @ ns) hs =
           Some (st @ ns', [length st + length ns ..< length st + length ns'])"
  using copy_nodes_ext [OF assms(1), of cp ns] assms(2)
  by (simp add: add.assoc)

lemma copy_orders_step:
  assumes "valid_handles st (map fst os)"
    and "ns' = ns @ map (\<lambda>h. cp (st ! h)) (map fst os)"
  shows "copy_orders cp (st @ ns) os =
           Some (st @ ns',
                 zip [length st + length ns ..< length st + length ns'] (map snd os))"
  using copy_orders_ext [OF assms(1), of cp ns] assms(2)
  by (simp add: add.assoc)

lemma copy_option_step:
  assumes "valid_handles st (option_handles p)"
    and "ns' = ns @ map (\<lambda>h. cp (st ! h)) (option_handles p)"
  shows "copy_option cp (st @ ns) p =
           Some (st @ ns', map_option (\<lambda>_. length st + length ns) p)"
  using copy_option_ext [OF assms(1), of cp ns] assms(2)
  by simp

lemma eq_nodes_step:
  assumes "valid_handles st hs" and "\<forall>n. eqN n (cp n)"
    and "ns' = ns @ map (\<lambda>h. cp (st ! h)) hs"
    and "\<exists>m. st' = (st @ ns') @ m"
  shows "list_all2 (eq_at eqN st') hs [length st + length ns ..< length st + length ns']"
proof -
  from assms(4) obtain m where "st' = (st @ ns') @ m" ..
  then have "st' = st @ ns @ map (\<lambda>h. cp (st ! h)) hs @ m"
    by (simp add: assms(3))
  with eq_at_copied [of st hs eqN cp ns m] assms(1,2) show ?thesis
    by (simp add: assms(3) add.assoc)
qed

lemma eq_orders_step:
  assumes "valid_handles st (map fst os)" and "\<forall>n. eqN n (cp n)"
    and "ns' = ns @ map (\<lambda>h. cp (st ! h)) (map fst os)"
    and "\<exists>m. st' = (st @ ns') @ m"
  shows "list_all2 (eq_order eqN st') os
           (zip [length st + length ns ..< length st + length ns'] (map snd os))"
proof -
  from assms(4) obtain m where "st' = (st @ ns') @ m" ..
  then have "st' = st @ ns @ map (\<lambda>h. cp (st ! h)) (map fst os) @ m"
    by (simp add: assms(3))
  with eq_order_copied [of st os eqN cp ns m] assms(1,2) show ?thesis
    by (simp add: assms(3) add.assoc)
qed

lemma eq_option_step:
  assumes "valid_handles st (option_handles p)" and "\<forall>n. eqN n (cp n)"
    and "ns' = ns @ map (\<lambda>h. cp (st ! h)) (option_handles p)"
    and "\<exists>m. st' = (st @ ns') @ m"
  shows "rel_option (eq_at eqN st') p (map_option (\<lambda>_. length st + length ns) p)"
proof -
  from assms(4) obtain m where "st' = (st @ ns') @ m" ..
  then have "st' = st @ ns @ map (\<lambda>h. cp (st ! h)) (option_handles p) @ m"
    by (simp add: assms(3))
  with eq_option_copied [of st p eqN cp ns m] assms(1,2) show ?thesis
    by simp
qed

lemma option_handles_step:
  assumes "ns' = ns @ map f (option_handles p)"
  shows "option_handles (map_option (\<lambda>_. k + length ns) p) = [k + length ns ..< k + length ns']"
  by (cases p) (simp_all add: option_handles_def assms)

lemma zip_handles_step:
  assumes "ns' = ns @ map f (map fst os)"
  shows "map fst (zip [k + length ns ..< k + length ns'] (map snd os))
           = [k + length ns ..< k + length ns']"
  by (rule map_fst_zip) (simp add: assms)

lemma upt_chain:
  "a \<le> b \<Longrightarrow> b \<le> c \<Longrightarrow> [k + a ..< k + b] @ [k + b ..< k + c] = [k + a ..< k + (c::nat)]"
proof -
  assume ab: "a \<le> b" and bc: "b \<le> c"
  then obtain d where c: "c = b + d"
    using le_Suc_ex by blast
  have "[k + a ..< (k + b) + d] = [k + a ..< k + b] @ [k + b ..< (k + b) + d]"
    using ab by (intro upt_add_eq_append) simp
  then show ?thesis
    by (simp add: c add.assoc)
qed

lemma Copy_result:
  assumes wf: "well_formed st w" and eq: "\<forall>n. eqN n (cp n)"
  shows "\<exists>w'. Copy cp st w = Some (st @ map (\<lambda>h. cp (st ! h)) (handles w), w')
              \<and> handles w' = [length st ..< length st + length (handles w)]
              \<and> Equal eqN (st @ map (\<lambda>h. cp (st ! h)) (handles w)) w w'"
proof -
  let ?L = "length st"
  let ?f = "\<lambda>h. cp (st ! h)"
  define n1 where "n1 = map ?f (children w)"
  define n2 where "n2 = n1 @ map ?f (partitions w)"
  define n3 where "n3 = n2 @ map ?f (map fst (orders w))"
  define n4 where "n4 = n3 @ map ?f (map fst (arg_orders w))"
  define n5 where "n5 = n4 @ map ?f (option_handles (start_expr w))"
  define n6 where "n6 = n5 @ map ?f (option_handles (end_expr w))"
  define n7 where "n7 = n6 @ map ?f (option_handles (filter_expr w))"
  define n8 where "n8 = n7 @ map ?f (option_handles (offset_expr w))"
  define n9 where "n9 = n8 @ map ?f (option_handles (default_expr w))"
  note defs = n2_def n3_def n4_def n5_def n6_def n7_def n8_def n9_def
  have n1': "n1 = [] @ map ?f (children w)" by (simp add: n1_def)
  have all: "n9 = map ?f (handles w)"
    by (simp add: n1_def defs handles_def)
  from wf have v:
    "valid_handles st (children w)" "valid_handles st (partitions w)"
    "valid_handles st (map fst (orders w))" "valid_handles st (map fst (arg_orders w))"
    "valid_handles st (option_handles (start_expr w))"
    "valid_handles st (option_handles (end_expr w))"
    "valid_handles st (option_handles (filter_expr w))"
    "valid_handles st (option_handles (offset_expr w))"
    "valid_handles st (option_handles (default_expr w))"
    by (simp_all add: well_formed_def handles_def valid_handles_append)
  have le: "length n1 \<le> length n2" "length n2 \<le> length n3" "length n3 \<le> length n4"
    "length n4 \<le> length n5" "length n5 \<le> length n6" "length n6 \<le> length n7"
    "length n7 \<le> length n8" "length n8 \<le> length n9"
    by (simp_all add: defs)
  have c1: "copy_nodes cp st (children w) = Some (st @ n1, [?L ..< ?L + length n1])"
    using copy_nodes_step [OF v(1) n1'] by simp
  have c2: "copy_nodes cp (st @ n1) (partitions w) =
              Some (st @ n2, [?L + length n1 ..< ?L + length n2])"
    by (rule copy_nodes_step [OF v(2) n2_def])
  have c3: "copy_orders cp (st @ n2) (orders w) =
              Some (st @ n3, zip [?L + length n2 ..< ?L + length n3] (map snd (orders w)))"
    by (rule copy_orders_step [OF v(3) n3_def])
  have c4: "copy_orders cp (st @ n3) (arg_orders w) =
              Some (st @ n4, zip [?L + length n3 ..< ?L + length n4] (map snd (arg_orders w)))"
    by (rule copy_orders_step [OF v(4) n4_def])
  have c5: "copy_option cp (st @ n4) (start_expr w) =
              Some (st @ n5, map_option (\<lambda>_. ?L + length n4) (start_expr w))"
    by (rule copy_option_step [OF v(5) n5_def])
  have c6: "copy_option cp (st @ n5) (end_expr w) =
              Some (st @ n6, map_option (\<lambda>_. ?L + length n5) (end_expr w))"
    by (rule copy_option_step [OF v(6) n6_def])
  have c7: "copy_option cp (st @ n6) (filter_expr w) =
              Some (st @ n7, map_option (\<lambda>_. ?L + length n6) (filter_expr w))"
    by (rule copy_option_step [OF v(7) n7_def])
  have c8: "copy_option cp (st @ n7) (offset_expr w) =
              Some (st @ n8, map_option (\<lambda>_. ?L + length n7) (offset_expr w))"
    by (rule copy_option_step [OF v(8) n8_def])
  have c9: "copy_option cp (st @ n8) (default_expr w) =
              Some (st @ n9, map_option (\<lambda>_. ?L + length n8) (default_expr w))"
    by (rule copy_option_step [OF v(9) n9_def])
  define w' where "w' =
    w\<lparr>children := [?L ..< ?L + length n1],
      partitions := [?L + length n1 ..< ?L + length n2],
      orders := zip [?L + length n2 ..< ?L + length n3] (map snd (orders w)),
      arg_orders := zip [?L + length n3 ..< ?L + length n4] (map snd (arg_orders w)),
      start_expr := map_option (\<lambda>_. ?L + length n4) (start_expr w),
      end_expr := map_option (\<lambda>_. ?L + length n5) (end_expr w),
      filter_expr := map_option (\<lambda>_. ?L + length n6) (filter_expr w),
      offset_expr := map_option (\<lambda>_. ?L + length n7) (offset_expr w),
      default_expr := map_option (\<lambda>_. ?L + length n8) (default_expr w)\<rparr>"
  have copy: "Copy cp st w = Some (st @ n9, w')"
    by (simp add: Copy_def c1 c2 c3 c4 c5 c6 c7 c8 c9 w'_def)
  have fields:
    "children w' = [?L ..< ?L + length n1]"
    "partitions w' = [?L + length n1 ..< ?L + length n2]"
    "orders w' = zip [?L + length n2 ..< ?L + length n3] (map snd (orders w))"
    "arg_orders w' = zip [?L + length n3 ..< ?L + length n4] (map snd (arg_orders w))"
    "start_expr w' = map_option (\<lambda>_. ?L + length n4) (start_expr w)"
    "end_expr w' = map_option (\<lambda>_. ?L + length n5) (end_expr w)"
    "filter_expr w' = map_option (\<lambda>_. ?L + length n6) (filter_expr w)"
    "offset_expr w' = map_option (\<lambda>_. ?L + length n7) (offset_expr w)"
    "default_expr w' = map_option (\<lambda>_. ?L + length n8) (default_expr w)"
    by (simp_all add: w'_def)
  have hs: "handles w' =
      [?L ..< ?L + length n1] @ [?L + length n1 ..< ?L + length n2]
      @ [?L + length n2 ..< ?L + length n3] @ [?L + length n3 ..< ?L + length n4]
      @ [?L + length n4 ..< ?L + length n5] @ [?L + length n5 ..< ?L + length n6]
      @ [?L + length n6 ..< ?L + length n7] @ [?L + length n7 ..< ?L + length n8]
      @ [?L + length n8 ..< ?L + length n9]"
    unfolding handles_def fields
    by (simp only: zip_handles_step [OF n3_def] zip_handles_step [OF n4_def]
          option_handles_step [OF n5_def] option_handles_step [OF n6_def]
          option_handles_step [OF n7_def] option_handles_step [OF n8_def]
          option_handles_step [OF n9_def])
  have j8: "[?L + length n7 ..< ?L + length n8] @ [?L + length n8 ..< ?L + length n9]
              = [?L + length n7 ..< ?L + length n9]"
    using le by (intro upt_chain) simp_all
  have j7: "[?L + length n6 ..< ?L + length n7] @ [?L + length n7 ..< ?L + length n9]
              = [?L + length n6 ..< ?L + length n9]"
    using le by (intro upt_chain) simp_all
  have j6: "[?L + length n5 ..< ?L + length n6] @ [?L + length n6 ..< ?L + length n9]
              = [?L + length n5 ..< ?L + length n9]"
    using le by (intro upt_chain) simp_all
  have j5: "[?L + length n4 ..< ?L + length n5] @ [?L + length n5 ..< ?L + length n9]
              = [?L + length n4 ..< ?L + length n9]"
    using le by (intro upt_chain) simp_all
  have j4: "[?L + length n3 ..< ?L + length n4] @ [?L + length n4 ..< ?L + length n9]
              = [?L + length n3 ..< ?L + length n9]"
    using le by (intro upt_chain) simp_all
  have j3: "[?L + length n2 ..< ?L + length n3] @ [?L + length n3 ..< ?L + length n9]
              = [?L + length n2 ..< ?L + length n9]"
    using le by (intro upt_chain) simp_all
  have j2: "[?L + length n1 ..< ?L + length n2] @ [?L + length n2 ..< ?L + length n9]
              = [?L + length n1 ..< ?L + length n9]"
    using le by (intro upt_chain) simp_all
  have j1: "[?L ..< ?L + length n1] @ [?L + length n1 ..< ?L + length n9]
              = [?L ..< ?L + length n9]"
    using le upt_chain [of 0 "length n1" "length n9" ?L] by simp
  have fresh: "handles w' = [?L ..< ?L + length (handles w)]"
    using hs by (simp only: j8 j7 j6 j5 j4 j3 j2 j1) (simp add: all)
  have x: "\<exists>m. st @ n9 = (st @ n1) @ m" "\<exists>m. st @ n9 = (st @ n2) @ m"
    "\<exists>m. st @ n9 = (st @ n3) @ m" "\<exists>m. st @ n9 = (st @ n4) @ m"
    "\<exists>m. st @ n9 = (st @ n5) @ m" "\<exists>m. st @ n9 = (st @ n6) @ m"
    "\<exists>m. st @ n9 = (st @ n7) @ m" "\<exists>m. st @ n9 = (st @ n8) @ m"
    "\<exists>m. st @ n9 = (st @ n9) @ m"
    by (simp_all add: defs)
  have e1: "list_all2 (eq_at eqN (st @ n9)) (children w) (children w')"
    using eq_nodes_step [where eqN = eqN and cp = cp, OF v(1) eq n1' x(1)] by (simp add: fields)
  have e2: "list_all2 (eq_at eqN (st @ n9)) (partitions w) (partitions w')"
    using eq_nodes_step [where eqN = eqN and cp = cp, OF v(2) eq n2_def x(2)] by (simp add: fields)
  have e3: "list_all2 (eq_order eqN (st @ n9)) (orders w) (orders w')"
    using eq_orders_step [where eqN = eqN and cp = cp, OF v(3) eq n3_def x(3)] by (simp add: fields)
  have e4: "list_all2 (eq_order eqN (st @ n9)) (arg_orders w) (arg_orders w')"
    using eq_orders_step [where eqN = eqN and cp = cp, OF v(4) eq n4_def x(4)] by (simp add: fields)
  have e5: "rel_option (eq_at eqN (st @ n9)) (start_expr w) (start_expr w')"
    using eq_option_step [where eqN = eqN and cp = cp, OF v(5) eq n5_def x(5)] by (simp add: fields)
  have e6: "rel_option (eq_at eqN (st @ n9)) (end_expr w) (end_expr w')"
    using eq_option_step [where eqN = eqN and cp = cp, OF v(6) eq n6_def x(6)] by (simp add: fields)
  have e7: "rel_option (eq_at eqN (st @ n9)) (filter_expr w) (filter_expr w')"
    using eq_option_step [where eqN = eqN and cp = cp, OF v(7) eq n7_def x(7)] by (simp add: fields)
  have e8: "rel_option (eq_at eqN (st @ n9)) (offset_expr w) (offset_expr w')"
    using eq_option_step [where eqN = eqN and cp = cp, OF v(8) eq n8_def x(8)] by (simp add: fields)
  have e9: "rel_option (eq_at eqN (st @ n9)) (default_expr w) (default_expr w')"
    using eq_option_step [where eqN = eqN and cp = cp, OF v(9) eq n9_def x(9)] by (simp add: fields)
  have plain: "catalog w' = catalog w" "schema w' = schema w"
    "function_name w' = function_name w" "distinct_flag w' = distinct_flag w"
    "ignore_nulls w' = ignore_nulls w" "start w' = start w" "end_bound w' = end_bound w"
    "exclude_clause w' = exclude_clause w"
    by (simp_all add: w'_def)
  have equal: "Equal eqN (st @ n9) w w'"
    unfolding Equal_def
    by (simp only: plain e1 e2 e3 e4 e5 e6 e7 e8 e9 simp_thms)
  from copy fresh equal show ?thesis
    unfolding all by blast
qed

text \<open>
  Claim C10. For a well-formed expression \<open>w\<close>, and a node copy \<open>cp\<close> whose result is
  equal to its argument under the node equality, \<open>Copy\<close> succeeds and the copy is
  \<open>Equal\<close> to \<open>w\<close>. The copy is well formed, owns each of its nodes once, and its
  handles are new: none is a handle of \<open>w\<close> or of the store before. The store before is
  an initial segment of the store after, and overwriting any node of the copy changes
  neither that segment nor any node that \<open>w\<close> owns.
\<close>

theorem Copy_equal_and_fresh:
  assumes "well_formed st w" and "\<forall>n. eqN n (cp n)"
  shows "\<exists>st' w'. Copy cp st w = Some (st', w')
           \<and> Equal eqN st' w w'
           \<and> well_formed st' w'
           \<and> distinct (handles w')
           \<and> set (handles w') \<inter> set (handles w) = {}
           \<and> (\<forall>k \<in> set (handles w'). length st \<le> k)
           \<and> take (length st) st' = st
           \<and> (\<forall>k \<in> set (handles w'). \<forall>v.
                 take (length st) (st'[k := v]) = st
                 \<and> map (\<lambda>h. st'[k := v] ! h) (handles w) = map (\<lambda>h. st ! h) (handles w))"
proof -
  let ?st' = "st @ map (\<lambda>h. cp (st ! h)) (handles w)"
  from Copy_result [where eqN = eqN and cp = cp, OF assms] obtain w' where
    copy: "Copy cp st w = Some (?st', w')"
    and fresh: "handles w' = [length st ..< length st + length (handles w)]"
    and equal: "Equal eqN ?st' w w'"
    by blast
  have old: "h < length st" if "h \<in> set (handles w)" for h
    using assms(1) that by (simp add: well_formed_def valid_handles_def list_all_iff)
  have new: "length st \<le> k" if "k \<in> set (handles w')" for k
    using that by (simp add: fresh)
  have wf': "well_formed ?st' w'"
    by (simp add: well_formed_def valid_handles_def list_all_iff fresh)
  have dist: "distinct (handles w')"
    by (simp add: fresh)
  have disj: "set (handles w') \<inter> set (handles w) = {}"
    using old new by fastforce
  have keep: "take (length st) ?st' = st"
    by simp
  have mut: "take (length st) (?st'[k := v]) = st
             \<and> map (\<lambda>h. ?st'[k := v] ! h) (handles w) = map (\<lambda>h. st ! h) (handles w)"
    if "k \<in> set (handles w')" for k v
  proof -
    from new [OF that] have k: "length st \<le> k" .
    then have u: "?st'[k := v] = st @ (map (\<lambda>h. cp (st ! h)) (handles w))[k - length st := v]"
      by (simp add: list_update_append)
    have "?st'[k := v] ! h = st ! h" if "h \<in> set (handles w)" for h
      using old [OF that] by (simp add: u nth_append)
    then show ?thesis
      by (simp add: u)
  qed
  from copy equal wf' dist disj new keep mut show ?thesis
    by blast
qed

theorem Copy_equal_and_fresh_witness:
  "well_formed example_store example_window
   \<and> (\<forall>n :: string. n = (\<lambda>x. x) n)
   \<and> (\<exists>st' w'. Copy (\<lambda>x. x) example_store example_window = Some (st', w')
          \<and> Equal (=) st' example_window w'
          \<and> set (handles w') \<inter> set (handles example_window) = {}
          \<and> take (length example_store) st' = example_store)"
proof -
  have wf: "well_formed example_store example_window"
    by (simp add: well_formed_def valid_handles_def handles_def option_handles_def
          example_window_def example_store_def)
  have eq: "\<forall>n :: string. n = (\<lambda>x. x) n" by simp
  from Copy_equal_and_fresh [where eqN = "(=)" and cp = "\<lambda>x. x", OF wf eq] wf eq show ?thesis
    by blast
qed

end
